theory Spec2Isabelle
  imports Main
begin

section \<open>Text: characters and their classes\<close>

text \<open>
  A page text is a Python \<open>str\<close>; it is modelled as a \<open>string\<close> whose characters stand
  for the code points below 256. On these code points \<open>str.isspace\<close> (used by
  \<open>str.strip\<close>) and the class \<open>\s\<close> of the \<open>re\<close> module agree.
\<close>

definition is_space :: "char \<Rightarrow> bool" where
  "is_space c = (c \<in> set [CHR 0x09, CHR 0x0A, CHR 0x0B, CHR 0x0C, CHR 0x0D,
                           CHR 0x1C, CHR 0x1D, CHR 0x1E, CHR 0x1F, CHR 0x20,
                           CHR 0x85, CHR 0xA0])"

definition is_digit :: "char \<Rightarrow> bool" where
  "is_digit c = (c \<in> set ''0123456789'')"

definition case_pairs :: "(char \<times> char) list" where
  \<comment> \<open>the upper-case letters below 256 with their lower-case forms: A-Z, and 0xC0-0xDE
      without the multiplication sign 0xD7, each 0x20 below its lower-case form\<close>
  "case_pairs =
       [(CHR ''A'', CHR ''a''), (CHR ''B'', CHR ''b''), (CHR ''C'', CHR ''c''),
        (CHR ''D'', CHR ''d''), (CHR ''E'', CHR ''e''), (CHR ''F'', CHR ''f''),
        (CHR ''G'', CHR ''g''), (CHR ''H'', CHR ''h''), (CHR ''I'', CHR ''i''),
        (CHR ''J'', CHR ''j''), (CHR ''K'', CHR ''k''), (CHR ''L'', CHR ''l''),
        (CHR ''M'', CHR ''m''), (CHR ''N'', CHR ''n''), (CHR ''O'', CHR ''o''),
        (CHR ''P'', CHR ''p''), (CHR ''Q'', CHR ''q''), (CHR ''R'', CHR ''r''),
        (CHR ''S'', CHR ''s''), (CHR ''T'', CHR ''t''), (CHR ''U'', CHR ''u''),
        (CHR ''V'', CHR ''v''), (CHR ''W'', CHR ''w''), (CHR ''X'', CHR ''x''),
        (CHR ''Y'', CHR ''y''), (CHR ''Z'', CHR ''z''), (CHR 0xC0, CHR 0xE0),
        (CHR 0xC1, CHR 0xE1), (CHR 0xC2, CHR 0xE2), (CHR 0xC3, CHR 0xE3), (CHR 0xC4, CHR 0xE4),
        (CHR 0xC5, CHR 0xE5), (CHR 0xC6, CHR 0xE6), (CHR 0xC7, CHR 0xE7), (CHR 0xC8, CHR 0xE8),
        (CHR 0xC9, CHR 0xE9), (CHR 0xCA, CHR 0xEA), (CHR 0xCB, CHR 0xEB), (CHR 0xCC, CHR 0xEC),
        (CHR 0xCD, CHR 0xED), (CHR 0xCE, CHR 0xEE), (CHR 0xCF, CHR 0xEF), (CHR 0xD0, CHR 0xF0),
        (CHR 0xD1, CHR 0xF1), (CHR 0xD2, CHR 0xF2), (CHR 0xD3, CHR 0xF3), (CHR 0xD4, CHR 0xF4),
        (CHR 0xD5, CHR 0xF5), (CHR 0xD6, CHR 0xF6), (CHR 0xD8, CHR 0xF8), (CHR 0xD9, CHR 0xF9),
        (CHR 0xDA, CHR 0xFA), (CHR 0xDB, CHR 0xFB), (CHR 0xDC, CHR 0xFC), (CHR 0xDD, CHR 0xFD),
        (CHR 0xDE, CHR 0xFE)]"

definition to_lower :: "char \<Rightarrow> char" where
  \<comment> \<open>the case folding of IGNORECASE on the code points below 256; a code point that is
      not an upper-case letter has no other case partner below 256\<close>
  "to_lower c = (case map_of case_pairs c of Some l \<Rightarrow> l | None \<Rightarrow> c)"

definition is_word :: "char \<Rightarrow> bool" where
  \<comment> \<open>the class \<open>\w\<close>: \<open>str.isalnum\<close> or the underscore\<close>
  "is_word c =
     (let n = (of_char c :: nat) in
        (48 \<le> n \<and> n \<le> 57) \<or> (65 \<le> n \<and> n \<le> 90) \<or> n = 95 \<or> (97 \<le> n \<and> n \<le> 122)
        \<or> n = 170 \<or> n = 178 \<or> n = 179 \<or> n = 181 \<or> n = 185 \<or> n = 186
        \<or> (188 \<le> n \<and> n \<le> 190) \<or> (192 \<le> n \<and> n \<le> 214) \<or> (216 \<le> n \<and> n \<le> 246)
        \<or> 248 \<le> n)"

definition strip :: "string \<Rightarrow> string" where
  \<comment> \<open>\<open>str.strip()\<close>\<close>
  "strip s = rev (dropWhile is_space (rev (dropWhile is_space s)))"

definition slice :: "string \<Rightarrow> nat \<Rightarrow> nat \<Rightarrow> string" where
  \<comment> \<open>\<open>text[i:j]\<close> for \<open>0 \<le> i\<close> and \<open>0 \<le> j\<close>\<close>
  "slice s i j = take (j - i) (drop i s)"

section \<open>The regular expressions of the \<open>re\<close> module\<close>

text \<open>
  The patterns of the program are written as terms of \<open>regex\<close>. The matcher is the
  backtracking matcher of \<open>re\<close>: at a cursor it lists every way the pattern can match
  there, in the order in which backtracking tries them, so the first element is the match
  that \<open>re\<close> reports. A cursor is the text before the position, reversed, and the text
  after it. No pattern of the program has more than one capturing group, so a match
  carries the text of group 1 only.
\<close>

datatype regex =
    Eps
  | Chr "char \<Rightarrow> bool"
  | Seq regex regex
  | Alt regex regex
  | Opt regex
  | Star regex
  | StarLazy regex
  | Grp regex
  | WordB
  | Eol

type_synonym cursor = "string \<times> string"
type_synonym mstate = "cursor \<times> string option"

fun progress :: "string \<Rightarrow> mstate \<Rightarrow> bool" where
  "progress a ((b', a'), g) = (length a' < length a)"

fun set_group :: "string \<Rightarrow> mstate \<Rightarrow> mstate" where
  "set_group a ((b', a'), g) = ((b', a'), Some (take (length a - length a') a))"

definition at_boundary :: "string \<Rightarrow> string \<Rightarrow> bool" where
  \<comment> \<open>\<open>\b\<close>: exactly one of the two neighbours is a word character\<close>
  "at_boundary b a =
     ((case b of [] \<Rightarrow> False | x # _ \<Rightarrow> is_word x) \<noteq> (case a of [] \<Rightarrow> False | y # _ \<Rightarrow> is_word y))"

definition at_end :: "string \<Rightarrow> bool" where
  \<comment> \<open>\<open>$\<close> without MULTILINE: the end of the text, or before a newline that ends it\<close>
  "at_end a = (a = [] \<or> a = [CHR 0x0A])"

function (sequential) rmatch :: "regex \<Rightarrow> mstate \<Rightarrow> mstate list" where
  "rmatch Eps st = [st]"
| "rmatch (Chr P) ((b, []), g) = []"
| "rmatch (Chr P) ((b, x # xs), g) = (if P x then [((x # b, xs), g)] else [])"
| "rmatch (Seq r1 r2) st = concat (map (rmatch r2) (rmatch r1 st))"
| "rmatch (Alt r1 r2) st = rmatch r1 st @ rmatch r2 st"
| "rmatch (Opt r) st = rmatch r st @ [st]"
| "rmatch (Star r) ((b, a), g) =
     concat (map (rmatch (Star r)) (filter (progress a) (rmatch r ((b, a), g)))) @ [((b, a), g)]"
| "rmatch (StarLazy r) ((b, a), g) =
     ((b, a), g) # concat (map (rmatch (StarLazy r)) (filter (progress a) (rmatch r ((b, a), g))))"
| "rmatch (Grp r) ((b, a), g) = map (set_group a) (rmatch r ((b, a), g))"
| "rmatch WordB ((b, a), g) = (if at_boundary b a then [((b, a), g)] else [])"
| "rmatch Eol ((b, a), g) = (if at_end a then [((b, a), g)] else [])"
  by pat_completeness auto
termination
  by (relation "measures [\<lambda>(r, st). size r, \<lambda>(r, (c, g)). length (snd c)]") auto


definition match_here :: "regex \<Rightarrow> cursor \<Rightarrow> mstate option" where
  \<comment> \<open>the match found at a cursor: the first one that backtracking reaches\<close>
  "match_here r cur = (case rmatch r (cur, None) of [] \<Rightarrow> None | m # _ \<Rightarrow> Some m)"

record match =
  start :: nat
  group0 :: string
  group1 :: "string option"

fun mk_match :: "string \<Rightarrow> string \<Rightarrow> mstate \<Rightarrow> match" where
  "mk_match b a ((b', a'), g) =
     \<lparr>start = length b, group0 = take (length a - length a') a, group1 = g\<rparr>"

fun re_search_from :: "regex \<Rightarrow> string \<Rightarrow> string \<Rightarrow> match option" where
  "re_search_from r b [] = map_option (mk_match b []) (match_here r (b, []))"
| "re_search_from r b (x # xs) =
     (case match_here r (b, x # xs) of
        Some m \<Rightarrow> Some (mk_match b (x # xs) m)
      | None \<Rightarrow> re_search_from r (x # b) xs)"

definition re_search :: "regex \<Rightarrow> string \<Rightarrow> match option" where
  \<comment> \<open>\<open>re.search\<close>: the match at the leftmost position that has one\<close>
  "re_search r text = re_search_from r [] text"

text \<open>
  \<open>re.finditer\<close>, \<open>re.findall\<close>, \<open>re.sub\<close> and \<open>re.split\<close> share one scan: it walks
  the text from left to right and cuts it at every match, resuming after the match. The
  scan returns, for every match, the unmatched text before it, and at the end the
  unmatched rest. A match that consumes nothing is reported and the scan moves on by one
  character; every pattern the program scans with consumes at least one character.
\<close>

function re_scan :: "regex \<Rightarrow> string \<Rightarrow> string \<Rightarrow> string \<Rightarrow> (string \<times> match option) list" where
  "re_scan r b a gap =
     (case match_here r (b, a) of
        Some ((b', a'), g) \<Rightarrow>
          if length a' < length a
          then (rev gap, Some (mk_match b a ((b', a'), g))) # re_scan r b' a' []
          else (rev gap, Some (mk_match b a ((b', a'), g))) #
               (case a of [] \<Rightarrow> [([], None)] | x # xs \<Rightarrow> re_scan r (x # b) xs [x])
      | None \<Rightarrow>
          (case a of [] \<Rightarrow> [(rev gap, None)] | x # xs \<Rightarrow> re_scan r (x # b) xs (x # gap)))"
  by pat_completeness auto
termination
  by (relation "measure (\<lambda>(r, b, a, gap). length a)") auto

definition re_finditer :: "regex \<Rightarrow> string \<Rightarrow> match list" where
  "re_finditer r text = List.map_filter snd (re_scan r [] text [])"

definition re_findall :: "regex \<Rightarrow> string \<Rightarrow> string list" where
  \<comment> \<open>for a pattern without a group: the matched texts\<close>
  "re_findall r text = map group0 (re_finditer r text)"

definition re_sub :: "regex \<Rightarrow> string \<Rightarrow> string \<Rightarrow> string" where
  "re_sub r repl text =
     concat (map (\<lambda>(gap, m). gap @ (case m of Some _ \<Rightarrow> repl | None \<Rightarrow> []))
                 (re_scan r [] text []))"

definition re_split :: "regex \<Rightarrow> string \<Rightarrow> string list" where
  \<comment> \<open>for a pattern without a group: the texts between the matches\<close>
  "re_split r text = map fst (re_scan r [] text [])"

subsection \<open>Writing patterns\<close>

definition ch :: "char \<Rightarrow> regex" where
  "ch c = Chr (\<lambda>x. x = c)"

definition ci :: "char \<Rightarrow> regex" where
  \<comment> \<open>a literal character under IGNORECASE\<close>
  "ci c = Chr (\<lambda>x. to_lower x = to_lower c)"

definition seqs :: "regex list \<Rightarrow> regex" where
  "seqs rs = foldr Seq rs Eps"

definition lit :: "string \<Rightarrow> regex" where
  "lit s = seqs (map ch s)"

definition lit_ci :: "string \<Rightarrow> regex" where
  \<comment> \<open>a literal text under IGNORECASE\<close>
  "lit_ci s = seqs (map ci s)"

definition Plus :: "regex \<Rightarrow> regex" where
  "Plus r = Seq r (Star r)"

definition Rep :: "nat \<Rightarrow> regex \<Rightarrow> regex" where
  \<comment> \<open>\<open>r{n}\<close>\<close>
  "Rep n r = seqs (replicate n r)"

definition ws :: regex where
  \<comment> \<open>\<open>\s\<close>\<close>
  "ws = Chr is_space"

definition digit :: regex where
  \<comment> \<open>\<open>\d\<close> and \<open>[0-9]\<close>\<close>
  "digit = Chr is_digit"

definition dot :: regex where
  \<comment> \<open>\<open>.\<close> without DOTALL\<close>
  "dot = Chr (\<lambda>x. x \<noteq> CHR 0x0A)"

definition dot_all :: regex where
  \<comment> \<open>\<open>.\<close> under DOTALL\<close>
  "dot_all = Chr (\<lambda>x. True)"

definition not_nl :: regex where
  \<comment> \<open>\<open>[^\n]\<close>\<close>
  "not_nl = Chr (\<lambda>x. x \<noteq> CHR 0x0A)"

section \<open>The section splitter\<close>

definition marker_re :: regex where
  \<comment> \<open>\<open>Employee'?s name|Employee'?s SSN\<close>, IGNORECASE\<close>
  "marker_re =
     Alt (seqs [lit_ci ''Employee'', Opt (ch (CHR 0x27)), lit_ci ''s name''])
         (seqs [lit_ci ''Employee'', Opt (ch (CHR 0x27)), lit_ci ''s SSN''])"

fun sections :: "string \<Rightarrow> match list \<Rightarrow> string list" where
  "sections text [] = []"
| "sections text (m # ms) =
     slice text (start m) (case ms of [] \<Rightarrow> length text | m' # _ \<Rightarrow> start m') # sections text ms"

definition split_employee_sections :: "string \<Rightarrow> string list" where
  "split_employee_sections text =
     (let markers = re_finditer marker_re text
      in if markers = [] then [text] else sections text markers)"


section \<open>Pattern primitives of the program\<close>

fun truthy :: "string option \<Rightarrow> bool" where
  \<comment> \<open>Python's truth value of an optional string: neither \<open>None\<close> nor empty\<close>
  "truthy None = False"
| "truthy (Some s) = (s \<noteq> [])"

definition py_or :: "string option \<Rightarrow> string option \<Rightarrow> string option" where
  \<comment> \<open>\<open>a or b\<close>\<close>
  "py_or a b = (if truthy a then a else b)"

fun join :: "string \<Rightarrow> string list \<Rightarrow> string" where
  \<comment> \<open>\<open>sep.join(xs)\<close>\<close>
  "join sep [] = []"
| "join sep [x] = x"
| "join sep (x # y # ys) = x @ sep @ join sep (y # ys)"

fun contains :: "string \<Rightarrow> string \<Rightarrow> bool" where
  \<comment> \<open>\<open>sub in s\<close>\<close>
  "contains sub [] = (sub = [])"
| "contains sub (x # xs) = (take (length sub) (x # xs) = sub \<or> contains sub xs)"

definition ws_plus :: regex where
  \<comment> \<open>\<open>\s+\<close>\<close>
  "ws_plus = Plus ws"

definition normalize_text :: "string \<Rightarrow> string" where
  "normalize_text text = strip (re_sub ws_plus '' '' text)"

definition first_match :: "regex \<Rightarrow> string \<Rightarrow> string option" where
  \<comment> \<open>\<open>match.group(1).strip() if match else None\<close>. IGNORECASE is written into the
      pattern term. Every pattern the program passes here sets its group in every match,
      so \<open>group(1)\<close> is a string and \<open>strip\<close> does not raise\<close>
  "first_match pattern text =
     (case re_search pattern text of
        None \<Rightarrow> None
      | Some m \<Rightarrow> map_option strip (group1 m))"

section \<open>Names\<close>

record name =
  n_first :: "string option"
  n_middle :: "string option"
  n_last :: "string option"

definition name_re :: regex where
  \<comment> \<open>\<open>Employee.?s name\s+([^\n]+)\<close>\<close>
  "name_re = seqs [lit_ci ''Employee'', Opt dot, lit_ci ''s name'', Plus ws, Grp (Plus not_nl)]"

definition name_candidate :: "string \<Rightarrow> string" where
  \<comment> \<open>the variable \<open>name\<close> of \<open>_extract_name\<close> after its two assignments\<close>
  "name_candidate text =
     (let name = first_match name_re text
      in case name of
           Some n \<Rightarrow> if n \<noteq> [] then n else strip text
         | None \<Rightarrow> strip text)"

definition extract_name :: "string \<Rightarrow> name" where
  "extract_name text =
     (let name = name_candidate text
      in if name = [] then \<lparr>n_first = None, n_middle = None, n_last = None\<rparr>
         else
           \<comment> \<open>\<open>re.split\<close> returns at least one text, so \<open>parts[0]\<close> exists\<close>
           let parts = re_split ws_plus (strip name)
           in if length parts = 1
              then \<lparr>n_first = Some (parts ! 0), n_middle = None, n_last = None\<rparr>
              else if length parts = 2
              then \<lparr>n_first = Some (parts ! 0), n_middle = None, n_last = Some (parts ! 1)\<rparr>
              else \<lparr>n_first = Some (parts ! 0),
                    n_middle = Some (join '' '' (butlast (tl parts))),
                    n_last = Some (last parts)\<rparr>)"

section \<open>Amounts\<close>

definition is_amount_char :: "char \<Rightarrow> bool" where
  \<comment> \<open>\<open>[0-9,]\<close> and \<open>[\d,]\<close>\<close>
  "is_amount_char c = (is_digit c \<or> c = CHR '','')"

definition amount_re :: regex where
  \<comment> \<open>\<open>[0-9,]+(?:\.[0-9]{2})?\<close>\<close>
  "amount_re = Seq (Plus (Chr is_amount_char)) (Opt (Seq (ch CHR ''.'') (Rep 2 digit)))"

definition money_re :: "string \<Rightarrow> regex" where
  \<comment> \<open>\<open>{re.escape(label)}\s*\$?([0-9,]+(?:\.[0-9]{2})?)\<close>\<close>
  "money_re label = seqs [lit_ci label, Star ws, Opt (ch CHR ''$''), Grp amount_re]"

definition extract_money :: "string \<Rightarrow> string \<Rightarrow> string option" where
  "extract_money label text = first_match (money_re label) text"

definition decimal_re :: regex where
  \<comment> \<open>\<open>\d[\d,]*\.\d{2}\<close>\<close>
  "decimal_re = seqs [digit, Star (Chr is_amount_char), ch CHR ''.'', Rep 2 digit]"

section \<open>Employer\<close>

record employer =
  employer_name :: "string option"
  employer_ein :: "string option"

definition is_employer_char :: "char \<Rightarrow> bool" where
  \<comment> \<open>\<open>[A-Z0-9 &.,'\-]\<close> under IGNORECASE\<close>
  "is_employer_char c =
     (to_lower c \<in> set ''abcdefghijklmnopqrstuvwxyz'' \<or> is_digit c
      \<or> c \<in> set [CHR '' '', CHR ''&'', CHR ''.'', CHR '','', CHR 0x27, CHR ''-''])"

definition employer_name_re :: regex where
  \<comment> \<open>\<open>Employer.?s name.*?\n([A-Z0-9 &.,'\-]+)\<close>\<close>
  "employer_name_re =
     seqs [lit_ci ''Employer'', Opt dot, lit_ci ''s name'', StarLazy dot, ch (CHR 0x0A),
           Grp (Plus (Chr is_employer_char))]"

definition amount_tail_re :: regex where
  \<comment> \<open>\<open>\s+\d[\d,]*\.\d{2}.*$\<close>\<close>
  "amount_tail_re =
     seqs [Plus ws, digit, Star (Chr is_amount_char), ch CHR ''.'', Rep 2 digit, Star dot, Eol]"

definition employer_ein_re :: regex where
  \<comment> \<open>\<open>Employer identification number.*?\n(\d{2}-\d{7}|\d{9})\<close>\<close>
  "employer_ein_re =
     seqs [lit_ci ''Employer identification number'', StarLazy dot, ch (CHR 0x0A),
           Grp (Alt (seqs [Rep 2 digit, ch CHR ''-'', Rep 7 digit]) (Rep 9 digit))]"

definition extract_employer_info :: "string \<Rightarrow> employer" where
  "extract_employer_info text =
     (let raw_name_line = first_match employer_name_re text;
          employer_name =
            (case raw_name_line of
               Some l \<Rightarrow> if l \<noteq> [] then Some (strip (re_sub amount_tail_re [] l)) else None
             | None \<Rightarrow> None);
          employer_ein = first_match employer_ein_re text
      in \<lparr>employer_name = employer_name, employer_ein = employer_ein\<rparr>)"

section \<open>State wages and state income tax\<close>

record state_values =
  sv_state_wages :: "string option"
  sv_state_withheld :: "string option"

definition state_re :: regex where
  \<comment> \<open>\<open>16 State wages.*?17 State income tax.*?\n([^\n]+)\<close>, IGNORECASE and DOTALL\<close>
  "state_re =
     seqs [lit_ci ''16 State wages'', StarLazy dot_all, lit_ci ''17 State income tax'',
           StarLazy dot_all, ch (CHR 0x0A), Grp (Plus not_nl)]"

definition state_line :: "string \<Rightarrow> string option" where
  \<comment> \<open>\<open>match.group(1)\<close> of the search, when there is a match\<close>
  "state_line text = (case re_search state_re text of None \<Rightarrow> None | Some m \<Rightarrow> group1 m)"

definition extract_state_wages_and_tax :: "string \<Rightarrow> state_values" where
  "extract_state_wages_and_tax text =
     (case state_line text of
        None \<Rightarrow> \<lparr>sv_state_wages = None, sv_state_withheld = None\<rparr>
      | Some line \<Rightarrow>
          let nums = re_findall decimal_re line
          in if length nums \<ge> 2
             then \<lparr>sv_state_wages = Some (nums ! 0), sv_state_withheld = Some (nums ! 1)\<rparr>
             else \<lparr>sv_state_wages = None, sv_state_withheld = None\<rparr>)"

section \<open>One employee\<close>

record employee =
  e_ssn :: "string option"
  e_first :: "string option"
  e_middle :: "string option"
  e_last :: "string option"
  e_wages :: "string option"
  e_state_wages :: "string option"
  e_state_withheld :: "string option"
  e_mapfml :: "string option"

definition ssn_re :: regex where
  \<comment> \<open>\<open>Employee.?s social security number\s+(\d{3}-\d{2}-\d{4})\<close>\<close>
  "ssn_re =
     seqs [lit_ci ''Employee'', Opt dot, lit_ci ''s social security number'', Plus ws,
           Grp (seqs [Rep 3 digit, ch CHR ''-'', Rep 2 digit, ch CHR ''-'', Rep 4 digit])]"

definition ssn9_re :: regex where
  \<comment> \<open>\<open>\b(\d{9})\b\<close>\<close>
  "ssn9_re = seqs [WordB, Grp (Rep 9 digit), WordB]"

definition first_name_re :: regex where
  \<comment> \<open>\<open>Employee.?s first name.*?\n([^\n]+)\<close>\<close>
  "first_name_re =
     seqs [lit_ci ''Employee'', Opt dot, lit_ci ''s first name'', StarLazy dot, ch (CHR 0x0A),
           Grp (Plus not_nl)]"

definition zero_tail_re :: regex where
  \<comment> \<open>\<open>\s+0\.00.*$\<close>\<close>
  "zero_tail_re = seqs [Plus ws, lit ''0.00'', Star dot, Eol]"

definition wages_line_re :: regex where
  \<comment> \<open>\<open>Employer identification number.*?\n([^\n]+)\<close>\<close>
  "wages_line_re =
     seqs [lit_ci ''Employer identification number'', StarLazy dot, ch (CHR 0x0A),
           Grp (Plus not_nl)]"

definition mapfml_re :: regex where
  \<comment> \<open>\<open>MAPFML:\s*([0-9,]+(?:\.[0-9]{2})?)\<close>\<close>
  "mapfml_re = seqs [lit_ci ''MAPFML:'', Star ws, Grp amount_re]"

definition extract_employee_from_page :: "string \<Rightarrow> employee" where
  "extract_employee_from_page text =
     (let text_flat = text;
          norm = normalize_text text;
          ssn = py_or (first_match ssn_re text_flat) (first_match ssn9_re text_flat);
          name_line = first_match first_name_re text_flat;
          name =
            (if truthy name_line
             then extract_name (strip (re_sub zero_tail_re [] (the name_line)))
             else extract_name text_flat);
          wages_line = first_match wages_line_re text_flat;
          wages =
            (if truthy wages_line
             then (case re_findall decimal_re (the wages_line) of
                     [] \<Rightarrow> None
                   | d # _ \<Rightarrow> Some d)
             else None);
          state_values = extract_state_wages_and_tax text_flat;
          mapfml = first_match mapfml_re text_flat
      in \<lparr>e_ssn = ssn,
          e_first = n_first name,
          e_middle = n_middle name,
          e_last = n_last name,
          e_wages = py_or wages (extract_money ''Wages, tips, other comp'' norm),
          e_state_wages = sv_state_wages state_values,
          e_state_withheld = sv_state_withheld state_values,
          e_mapfml = mapfml\<rparr>)"

section \<open>All employees of a document\<close>

definition any_values :: "employee \<Rightarrow> bool" where
  \<comment> \<open>\<open>any(employee.values())\<close>\<close>
  "any_values e =
     (truthy (e_ssn e) \<or> truthy (e_first e) \<or> truthy (e_middle e) \<or> truthy (e_last e)
      \<or> truthy (e_wages e) \<or> truthy (e_state_wages e) \<or> truthy (e_state_withheld e)
      \<or> truthy (e_mapfml e))"

definition is_w2_page :: "string \<Rightarrow> bool" where
  "is_w2_page page_text = (contains ''W-2'' page_text \<and> contains ''Employee'' page_text)"

definition emit :: "string \<Rightarrow> employee list \<Rightarrow> employee list" where
  \<comment> \<open>extract from one unit of text and append the record if any field is set\<close>
  "emit text employees =
     (let employee = extract_employee_from_page text
      in if any_values employee then employees @ [employee] else employees)"

fun collect :: "string list \<Rightarrow> string list \<Rightarrow> employee list \<Rightarrow> employee list" where
  \<comment> \<open>the loop over \<open>target_pages\<close>\<close>
  "collect w2_pages [] employees = employees"
| "collect w2_pages (page_text # rest) employees =
     (if strip page_text = [] then collect w2_pages rest employees
      else if page_text \<in> set w2_pages then collect w2_pages rest (emit page_text employees)
      else collect w2_pages rest (fold emit (split_employee_sections page_text) employees))"

fun py_str :: "string option \<Rightarrow> string" where
  \<comment> \<open>how an f-string renders an optional string\<close>
  "py_str None = ''None''"
| "py_str (Some s) = s"

definition identity_key :: "employee \<Rightarrow> string" where
  \<comment> \<open>\<open>emp.get("ssn") or f"{emp.get('first')}-{emp.get('last')}"\<close>\<close>
  "identity_key emp =
     (if truthy (e_ssn emp) then the (e_ssn emp)
      else py_str (e_first emp) @ ''-'' @ py_str (e_last emp))"

fun dedup :: "employee list \<Rightarrow> string set \<Rightarrow> employee list \<Rightarrow> employee list" where
  \<comment> \<open>the loop that fills \<open>seen\<close> and \<open>unique\<close>\<close>
  "dedup [] seen unique = unique"
| "dedup (emp # rest) seen unique =
     (let key = identity_key emp
      in if key \<in> seen then dedup rest seen unique
         else dedup rest (insert key seen) (unique @ [emp]))"

definition emitted_employees :: "string list \<Rightarrow> employee list" where
  \<comment> \<open>the list \<open>employees\<close> when the loop over the pages has ended\<close>
  "emitted_employees pages =
     (let w2_pages = filter is_w2_page pages;
          target_pages = (if w2_pages \<noteq> [] then w2_pages else pages)
      in collect w2_pages target_pages [])"

definition extract_employees_from_pages :: "string list \<Rightarrow> employee list" where
  "extract_employees_from_pages pages = dedup (emitted_employees pages) {} []"

section \<open>The endpoint\<close>

text \<open>
  The two PDF libraries are outside the program. What a library does with the uploaded
  bytes is one of three things: it cannot be imported, it raises while it opens or reads
  the document, or it returns the text of every page. The program guards the import
  only.
\<close>

datatype 'a library = NotInstalled | Fails | Opens 'a

datatype exn = BackendError

definition has_text :: "string list \<Rightarrow> bool" where
  \<comment> \<open>\<open>any(part.strip() for part in text_parts)\<close>\<close>
  "has_text text_parts = list_ex (\<lambda>part. strip part \<noteq> []) text_parts"

definition extract_pages_pymupdf :: "string list library \<Rightarrow> exn + string list option" where
  "extract_pages_pymupdf fitz =
     (case fitz of
        NotInstalled \<Rightarrow> Inr None
      | Fails \<Rightarrow> Inl BackendError
      | Opens text_parts \<Rightarrow> Inr (if has_text text_parts then Some text_parts else None))"

definition extract_pages_pdfplumber :: "string option list library \<Rightarrow> exn + string list option" where
  "extract_pages_pdfplumber pdfplumber =
     (case pdfplumber of
        NotInstalled \<Rightarrow> Inr None
      | Fails \<Rightarrow> Inl BackendError
      | Opens page_texts \<Rightarrow>
          let text_parts = map (\<lambda>t. case t of None \<Rightarrow> [] | Some s \<Rightarrow> s) page_texts
          in Inr (if has_text text_parts then Some text_parts else None))"

record fields =
  f_employer_name :: "string option"
  f_employer_ein :: "string option"
  f_employees :: "employee list"

datatype response =
    JSONResponse nat string
  | Result string fields "string list"

definition error_message :: string where
  "error_message = ''Unable to extract text. Install pdfplumber or PyMuPDF.''"

definition warning :: string where
  "warning =
     ''Extraction is best-effort. Please verify all fields before generating the W-2 file.''"

definition no_pages :: "string list option \<Rightarrow> bool" where
  \<comment> \<open>\<open>not pages\<close>\<close>
  "no_pages pages = (case pages of None \<Rightarrow> True | Some ps \<Rightarrow> ps = [])"

definition build_result :: "string \<Rightarrow> string list \<Rightarrow> response" where
  \<comment> \<open>the part of the handler after the pages have been obtained\<close>
  "build_result method pages =
     (let all_text = join [CHR 0x0A] pages;
          employer = extract_employer_info all_text;
          employees = extract_employees_from_pages pages
      in Result method
           \<lparr>f_employer_name = employer_name employer,
            f_employer_ein = employer_ein employer,
            f_employees = employees\<rparr>
           [warning])"

definition extract_endpoint ::
  "('d \<Rightarrow> string option list library) \<Rightarrow> ('d \<Rightarrow> string list library) \<Rightarrow> 'd
     \<Rightarrow> exn + response" where
  \<comment> \<open>the handler of \<open>POST /extract\<close>; \<open>pdfplumber\<close> and \<open>fitz\<close> say what each library
      does with the uploaded bytes\<close>
  "extract_endpoint pdfplumber fitz data =
     (case extract_pages_pdfplumber (pdfplumber data) of
        Inl e \<Rightarrow> Inl e
      | Inr pages \<Rightarrow>
          if \<not> no_pages pages then Inr (build_result ''pdfplumber'' (the pages))
          else
            (case extract_pages_pymupdf (fitz data) of
               Inl e \<Rightarrow> Inl e
             | Inr pages \<Rightarrow>
                 if \<not> no_pages pages then Inr (build_result ''pymupdf'' (the pages))
                 else Inr (JSONResponse 422 error_message)))"


section \<open>Notions used to state the properties\<close>

definition first_seen :: "employee list \<Rightarrow> nat \<Rightarrow> bool" where
  \<comment> \<open>no record before position \<open>i\<close> has the identity key of the record at \<open>i\<close>\<close>
  "first_seen es i = (identity_key (es ! i) \<notin> set (map identity_key (take i es)))"

definition has_non_null :: "employee \<Rightarrow> bool" where
  \<comment> \<open>at least one field of the record is not \<open>None\<close>\<close>
  "has_non_null e =
     (e_ssn e \<noteq> None \<or> e_first e \<noteq> None \<or> e_middle e \<noteq> None \<or> e_last e \<noteq> None
      \<or> e_wages e \<noteq> None \<or> e_state_wages e \<noteq> None \<or> e_state_withheld e \<noteq> None
      \<or> e_mapfml e \<noteq> None)"

definition yields_text_pdfplumber :: "string option list library \<Rightarrow> bool" where
  \<comment> \<open>pdfplumber opens the document and some page has a character that is not whitespace\<close>
  "yields_text_pdfplumber l =
     (case l of
        Opens ts \<Rightarrow> list_ex (\<lambda>t. case t of None \<Rightarrow> False | Some s \<Rightarrow> list_ex (\<lambda>c. \<not> is_space c) s) ts
      | _ \<Rightarrow> False)"

definition yields_text_pymupdf :: "string list library \<Rightarrow> bool" where
  \<comment> \<open>PyMuPDF opens the document and some page has a character that is not whitespace\<close>
  "yields_text_pymupdf l =
     (case l of Opens ts \<Rightarrow> list_ex (list_ex (\<lambda>c. \<not> is_space c)) ts | _ \<Rightarrow> False)"

definition is_result :: "string \<Rightarrow> response \<Rightarrow> bool" where
  \<comment> \<open>a result with the given method, a \<open>fields\<close> object and the fixed warning\<close>
  "is_result method resp =
     (case resp of Result m f w \<Rightarrow> m = method \<and> w = [warning] | JSONResponse _ _ \<Rightarrow> False)"

text \<open>
  The texts a pattern can read, whatever the context: the assertions \<open>\b\<close> and \<open>$\<close> read
  nothing.
\<close>

primrec lang :: "regex \<Rightarrow> string set" where
  "lang Eps = {[]}"
| "lang (Chr P) = {[c] | c. P c}"
| "lang (Seq r s) = {u @ v | u v. u \<in> lang r \<and> v \<in> lang s}"
| "lang (Alt r s) = lang r \<union> lang s"
| "lang (Opt r) = insert [] (lang r)"
| "lang (Star r) = {concat ws | ws. set ws \<subseteq> lang r}"
| "lang (StarLazy r) = {concat ws | ws. set ws \<subseteq> lang r}"
| "lang (Grp r) = lang r"
| "lang WordB = {[]}"
| "lang Eol = {[]}"

primrec no_group :: "regex \<Rightarrow> bool" where
  "no_group Eps = True"
| "no_group (Chr P) = True"
| "no_group (Seq r s) = (no_group r \<and> no_group s)"
| "no_group (Alt r s) = (no_group r \<and> no_group s)"
| "no_group (Opt r) = no_group r"
| "no_group (Star r) = no_group r"
| "no_group (StarLazy r) = no_group r"
| "no_group (Grp r) = False"
| "no_group WordB = True"
| "no_group Eol = True"

fun sets_group :: "(string \<Rightarrow> bool) \<Rightarrow> regex \<Rightarrow> bool" where
  \<comment> \<open>every match of the pattern sets group 1, to a text that satisfies \<open>Q\<close>\<close>
  "sets_group Q (Grp r) = (\<forall>w\<in>lang r. Q w)"
| "sets_group Q (Seq r s) = (sets_group Q s \<or> (sets_group Q r \<and> no_group s))"
| "sets_group Q _ = False"

definition money_shape :: "string \<Rightarrow> bool" where
  \<comment> \<open>one or more digits and commas, then nothing or a point and exactly two digits\<close>
  "money_shape v =
     (let ds = takeWhile is_amount_char v; rest = dropWhile is_amount_char v
      in ds \<noteq> [] \<and>
         (case rest of
            [] \<Rightarrow> True
          | [p, x, y] \<Rightarrow> p = CHR ''.'' \<and> is_digit x \<and> is_digit y
          | _ \<Rightarrow> False))"

fun tokens_from :: "string \<Rightarrow> string \<Rightarrow> string list" where
  \<comment> \<open>the maximal runs of characters that are not whitespace; \<open>acc\<close> is the run being
      read, reversed\<close>
  "tokens_from [] acc = (if acc = [] then [] else [rev acc])"
| "tokens_from (c # cs) acc =
     (if is_space c
      then (if acc = [] then tokens_from cs [] else rev acc # tokens_from cs [])
      else tokens_from cs (c # acc))"

definition ws_tokens :: "string \<Rightarrow> string list" where
  \<comment> \<open>a text split on whitespace into its tokens\<close>
  "ws_tokens s = tokens_from s []"

definition consumed :: "mstate \<Rightarrow> mstate \<Rightarrow> string \<Rightarrow> bool" where
  \<comment> \<open>the matcher moved from the first cursor to the second by reading \<open>w\<close>\<close>
  "consumed st st' w = (snd (fst st) = w @ snd (fst st') \<and> fst (fst st') = rev w @ fst (fst st))"

section \<open>The matcher moves forward in the text\<close>

lemma consumed_refl: "consumed st st []"
  by (simp add: consumed_def)

lemma consumed_trans: "consumed st m u \<Longrightarrow> consumed m st' v \<Longrightarrow> consumed st st' (u @ v)"
  by (simp add: consumed_def)

lemma concat_in_star: "u \<in> L \<Longrightarrow> v \<in> {concat ws | ws. set ws \<subseteq> L} \<Longrightarrow>
  u @ v \<in> {concat ws | ws. set ws \<subseteq> L}"
proof -
  assume u: "u \<in> L" and "v \<in> {concat ws | ws. set ws \<subseteq> L}"
  then obtain ws where "v = concat ws" "set ws \<subseteq> L" by blast
  then have "u @ v = concat (u # ws)" "set (u # ws) \<subseteq> L" using u by auto
  then show ?thesis by blast
qed

lemma Nil_in_star: "[] \<in> {concat ws | ws. set ws \<subseteq> L}"
proof -
  have "[] = concat []" "set [] \<subseteq> L" by auto
  then show ?thesis by blast
qed

lemma rmatch_lang:
  "st' \<in> set (rmatch r st) \<Longrightarrow> \<exists>w\<in>lang r. consumed st st' w"
proof (induction r st arbitrary: st' rule: rmatch.induct)
  case (1 st)
  then have "st' = st" by simp
  then show ?case using consumed_refl by auto
next
  case (2 P b g)
  then show ?case by simp
next
  case (3 P b x xs g)
  then have "P x" and "st' = ((x # b, xs), g)" by (auto split: if_splits)
  then have "consumed ((b, x # xs), g) st' [x]" "[x] \<in> lang (Chr P)" by (simp_all add: consumed_def)
  then show ?case by blast
next
  case (4 r1 r2 st)
  from "4.prems" have "st' \<in> set (concat (map (rmatch r2) (rmatch r1 st)))"
    by (simp only: rmatch.simps)
  then obtain m where m: "m \<in> set (rmatch r1 st)" and s: "st' \<in> set (rmatch r2 m)"
    by (auto simp del: rmatch.simps)
  from "4.IH"(1)[OF m] obtain u where u: "u \<in> lang r1" "consumed st m u" by blast
  from "4.IH"(2)[OF m s] obtain v where v: "v \<in> lang r2" "consumed m st' v" by blast
  have "u @ v \<in> lang (Seq r1 r2)" using u v by auto
  then show ?case using consumed_trans[OF u(2) v(2)] by blast
next
  case (5 r1 r2 st)
  from "5.prems" have "st' \<in> set (rmatch r1 st @ rmatch r2 st)" by (simp only: rmatch.simps)
  then have "st' \<in> set (rmatch r1 st) \<or> st' \<in> set (rmatch r2 st)" by (auto simp del: rmatch.simps)
  moreover have "lang r1 \<subseteq> lang (Alt r1 r2)" "lang r2 \<subseteq> lang (Alt r1 r2)" by simp_all
  ultimately show ?case using "5.IH" by blast
next
  case (6 r st)
  from "6.prems" have "st' \<in> set (rmatch r st @ [st])" by (simp only: rmatch.simps)
  then have "st' \<in> set (rmatch r st) \<or> st' = st" by (auto simp del: rmatch.simps)
  moreover have "lang r \<subseteq> lang (Opt r)" "[] \<in> lang (Opt r)" by auto
  ultimately show ?case using "6.IH" consumed_refl by blast
next
  case (7 r b a g)
  from "7.prems" have "st' \<in> set (concat (map (rmatch (Star r))
      (filter (progress a) (rmatch r ((b, a), g)))) @ [((b, a), g)])"
    by (simp only: rmatch.simps)
  then consider "st' = ((b, a), g)"
    | m where "m \<in> set (rmatch r ((b, a), g))" "progress a m" "st' \<in> set (rmatch (Star r) m)"
    by (auto simp del: rmatch.simps)
  then show ?case
  proof cases
    case 1
    have "[] \<in> lang (Star r)" using Nil_in_star by simp
    then show ?thesis using 1 consumed_refl by blast
  next
    case 2
    have f: "m \<in> set (filter (progress a) (rmatch r ((b, a), g)))" using 2 by (simp del: rmatch.simps)
    from "7.IH"(1)[OF 2(1)] obtain u where u: "u \<in> lang r" "consumed ((b, a), g) m u" by blast
    from "7.IH"(2)[OF f 2(3)] obtain v where v: "v \<in> lang (Star r)" "consumed m st' v" by blast
    have "u @ v \<in> lang (Star r)" using concat_in_star[OF u(1)] v(1) by simp
    then show ?thesis using consumed_trans[OF u(2) v(2)] by blast
  qed
next
  case (8 r b a g)
  from "8.prems" have "st' \<in> set (((b, a), g) # concat (map (rmatch (StarLazy r))
      (filter (progress a) (rmatch r ((b, a), g)))))"
    by (simp only: rmatch.simps)
  then consider "st' = ((b, a), g)"
    | m where "m \<in> set (rmatch r ((b, a), g))" "progress a m" "st' \<in> set (rmatch (StarLazy r) m)"
    by (auto simp del: rmatch.simps)
  then show ?case
  proof cases
    case 1
    have "[] \<in> lang (StarLazy r)" using Nil_in_star by simp
    then show ?thesis using 1 consumed_refl by blast
  next
    case 2
    have f: "m \<in> set (filter (progress a) (rmatch r ((b, a), g)))" using 2 by (simp del: rmatch.simps)
    from "8.IH"(1)[OF 2(1)] obtain u where u: "u \<in> lang r" "consumed ((b, a), g) m u" by blast
    from "8.IH"(2)[OF f 2(3)] obtain v where v: "v \<in> lang (StarLazy r)" "consumed m st' v" by blast
    have "u @ v \<in> lang (StarLazy r)" using concat_in_star[OF u(1)] v(1) by simp
    then show ?thesis using consumed_trans[OF u(2) v(2)] by blast
  qed
next
  case (9 r b a g)
  from "9.prems" have "st' \<in> set (map (set_group a) (rmatch r ((b, a), g)))"
    by (simp only: rmatch.simps)
  then obtain m where m: "m \<in> set (rmatch r ((b, a), g))" and s: "st' = set_group a m"
    by (auto simp del: rmatch.simps)
  from "9.IH"[OF m] obtain w where w: "w \<in> lang r" "consumed ((b, a), g) m w" by blast
  then have "consumed ((b, a), g) st' w" using s by (cases m) (auto simp: consumed_def)
  then show ?case using w(1) by auto
next
  case (10 b a g)
  then have "st' = ((b, a), g)" by (simp split: if_splits)
  then show ?case using consumed_refl by auto
next
  case (11 b a g)
  then have "st' = ((b, a), g)" by (simp split: if_splits)
  then show ?case using consumed_refl by auto
qed

lemma rmatch_cursor:
  "st' \<in> set (rmatch r st) \<Longrightarrow> \<exists>w. consumed st st' w"
  using rmatch_lang by blast

lemma rmatch_cursorD:
  assumes "((b', a'), g') \<in> set (rmatch r ((b, a), g))"
  shows "rev b' @ a' = rev b @ a" and "length a' \<le> length a"
    and "length b' + length a' = length b + length a"
  using rmatch_cursor[OF assms] by (auto simp: consumed_def)

lemma match_hereD:
  "match_here r (b, a) = Some ((b', a'), g') \<Longrightarrow> ((b', a'), g') \<in> set (rmatch r ((b, a), None))"
  by (auto simp: match_here_def split: list.splits)

section \<open>Deduplication\<close>

lemma dedup_append: "dedup es seen unique = unique @ dedup es seen []"
proof (induction es arbitrary: seen unique)
  case Nil then show ?case by simp
next
  case (Cons e es)
  show ?case
    using Cons.IH[of seen unique] Cons.IH[of "insert (identity_key e) seen" "unique @ [e]"]
      Cons.IH[of "insert (identity_key e) seen" "[e]"]
    by (simp add: Let_def)
qed

lemma dedup_Cons:
  "dedup (e # es) seen [] =
     (if identity_key e \<in> seen then dedup es seen []
      else e # dedup es (insert (identity_key e) seen) [])"
  using dedup_append[of es "insert (identity_key e) seen" "[e]"] by (simp add: Let_def)

lemma set_dedup: "set (dedup es seen []) \<subseteq> set es"
  by (induction es arbitrary: seen) (auto simp: dedup_Cons simp del: dedup.simps(2))

lemma dedup_keys_fresh: "e \<in> set (dedup es seen []) \<Longrightarrow> identity_key e \<notin> seen"
  by (induction es arbitrary: seen) (auto simp: dedup_Cons simp del: dedup.simps(2) split: if_splits)

lemma dedup_fixed:
  "distinct (map identity_key es) \<Longrightarrow> identity_key ` set es \<inter> seen = {} \<Longrightarrow> dedup es seen [] = es"
  by (induction es arbitrary: seen) (auto simp: dedup_Cons simp del: dedup.simps(2))

lemma dedup_distinct: "distinct (map identity_key (dedup es seen []))"
proof (induction es arbitrary: seen)
  case Nil then show ?case by simp
next
  case (Cons e es)
  have "identity_key e \<notin> identity_key ` set (dedup es (insert (identity_key e) seen) [])"
  proof
    assume "identity_key e \<in> identity_key ` set (dedup es (insert (identity_key e) seen) [])"
    then obtain x where x: "x \<in> set (dedup es (insert (identity_key e) seen) [])"
      and k: "identity_key e = identity_key x" by blast
    from dedup_keys_fresh[OF x] k show False by simp
  qed
  then show ?case using Cons.IH
    by (simp add: dedup_Cons del: dedup.simps(2))
qed

lemma dedup_snoc:
  "dedup (es @ [e]) {} [] =
     dedup es {} [] @ (if identity_key e \<in> identity_key ` set es then [] else [e])"
proof -
  have "dedup (es @ [e]) seen [] =
     dedup es seen [] @ (if identity_key e \<in> seen \<union> identity_key ` set es then [] else [e])" for seen
    by (induction es arbitrary: seen) (auto simp: dedup_Cons simp del: dedup.simps(2))
  then show ?thesis by simp
qed

lemma dedup_first_seen:
  "dedup es {} [] = map (nth es) (filter (first_seen es) [0..<length es])"
proof (induction es rule: rev_induct)
  case Nil then show ?case by simp
next
  case (snoc e es)
  have fs: "first_seen (es @ [e]) i = first_seen es i" if "i < length es" for i
    using that by (simp add: first_seen_def nth_append)
  have last: "first_seen (es @ [e]) (length es) = (identity_key e \<notin> identity_key ` set es)"
    by (simp add: first_seen_def)
  have "filter (first_seen (es @ [e])) [0..<length es] = filter (first_seen es) [0..<length es]"
    by (rule filter_cong) (auto simp: fs)
  moreover have "map (nth (es @ [e])) (filter (first_seen es) [0..<length es]) = map (nth es) (filter (first_seen es) [0..<length es])"
    by (rule map_cong) (auto simp: nth_append)
  ultimately show ?case
    by (simp add: dedup_snoc snoc.IH last)
qed

text \<open>
  C5. Deduplication is idempotent: running the deduplication loop (with an empty
  \<open>seen\<close> and an empty \<open>unique\<close>, as the program starts it) on its own output returns that
  output unchanged, for every list of employee records.
\<close>

theorem dedup_idempotent: "dedup (dedup es {} []) {} [] = dedup es {} []"
  by (rule dedup_fixed) (simp_all add: dedup_distinct)

section \<open>Stripping and scanning\<close>

lemma strip_eq_Nil_iff: "strip s = [] \<longleftrightarrow> (\<forall>c\<in>set s. is_space c)"
proof -
  have "strip s = [] \<longleftrightarrow> (\<forall>c\<in>set (dropWhile is_space s). is_space c)"
    by (simp add: strip_def dropWhile_eq_Nil_conv)
  also have "\<dots> \<longleftrightarrow> dropWhile is_space s = []"
  proof
    assume a: "\<forall>c\<in>set (dropWhile is_space s). is_space c"
    show "dropWhile is_space s = []"
    proof (rule ccontr)
      assume n: "dropWhile is_space s \<noteq> []"
      then have "hd (dropWhile is_space s) \<in> set (dropWhile is_space s)" by simp
      with a hd_dropWhile[OF n] show False by blast
    qed
  next
    assume "dropWhile is_space s = []"
    then show "\<forall>c\<in>set (dropWhile is_space s). is_space c"
      by (metis empty_iff empty_set)
  qed
  also have "\<dots> \<longleftrightarrow> (\<forall>c\<in>set s. is_space c)"
    by (simp add: dropWhile_eq_Nil_conv)
  finally show ?thesis .
qed

lemma strip_prefix: "\<exists>t. dropWhile is_space s = strip s @ t"
proof -
  let ?d = "dropWhile is_space s"
  have "rev ?d = takeWhile is_space (rev ?d) @ dropWhile is_space (rev ?d)" by simp
  then have "?d = rev (dropWhile is_space (rev ?d)) @ rev (takeWhile is_space (rev ?d))"
    by (metis rev_append rev_rev_ident)
  then show ?thesis unfolding strip_def by blast
qed

lemma strip_hd: "strip s \<noteq> [] \<Longrightarrow> \<not> is_space (hd (strip s))"
proof -
  assume ne: "strip s \<noteq> []"
  obtain t where t: "dropWhile is_space s = strip s @ t" using strip_prefix by blast
  then have "dropWhile is_space s \<noteq> []" using ne by simp
  then have "\<not> is_space (hd (dropWhile is_space s))" by (rule hd_dropWhile)
  then show ?thesis using t ne by simp
qed

lemma strip_last: "strip s \<noteq> [] \<Longrightarrow> \<not> is_space (last (strip s))"
proof -
  assume ne: "strip s \<noteq> []"
  let ?e = "dropWhile is_space (rev (dropWhile is_space s))"
  have e: "?e \<noteq> []" using ne by (simp add: strip_def)
  then have "\<not> is_space (hd ?e)" by (rule hd_dropWhile)
  moreover have "last (strip s) = hd ?e" using e by (simp add: strip_def last_rev)
  ultimately show ?thesis by simp
qed

lemma strip_id: "s = [] \<or> (\<not> is_space (hd s) \<and> \<not> is_space (last s)) \<Longrightarrow> strip s = s"
proof (cases s)
  case Nil then show ?thesis by (simp add: strip_def)
next
  case (Cons x xs)
  assume "s = [] \<or> (\<not> is_space (hd s) \<and> \<not> is_space (last s))"
  then have h: "\<not> is_space x" and l: "\<not> is_space (last s)" using Cons by auto
  have 1: "dropWhile is_space s = s" using h Cons by simp
  obtain y ys where r: "rev s = y # ys" using Cons by (cases "rev s") auto
  have "hd (rev s) = last s" using Cons by (simp add: hd_rev)
  then have "\<not> is_space y" using l r by simp
  then have "dropWhile is_space (rev s) = rev s" using r by simp
  then show ?thesis by (simp add: strip_def 1)
qed

lemma strip_strip: "strip (strip s) = strip s"
  using strip_id[of "strip s"] strip_hd[of s] strip_last[of s] by blast



lemma scan_None_Nil:
  "match_here r (b, []) = None \<Longrightarrow> re_scan r b [] gap = [(rev gap, None)]"
  by (subst re_scan.simps) simp

lemma scan_None_Cons:
  "match_here r (b, x # xs) = None \<Longrightarrow> re_scan r b (x # xs) gap = re_scan r (x # b) xs (x # gap)"
  by (subst re_scan.simps) simp

lemma scan_Some_progress:
  "match_here r (b, a) = Some ((b', a'), g) \<Longrightarrow> length a' < length a \<Longrightarrow>
   re_scan r b a gap = (rev gap, Some (mk_match b a ((b', a'), g))) # re_scan r b' a' []"
  by (subst re_scan.simps) simp

lemma scan_Some_stuck_Nil:
  "match_here r (b, []) = Some ((b', a'), g) \<Longrightarrow>
   re_scan r b [] gap = [(rev gap, Some (mk_match b [] ((b', a'), g))), ([], None)]"
  by (subst re_scan.simps) simp

lemma scan_Some_stuck_Cons:
  "match_here r (b, x # xs) = Some ((b', a'), g) \<Longrightarrow> \<not> length a' < length (x # xs) \<Longrightarrow>
   re_scan r b (x # xs) gap =
     (rev gap, Some (mk_match b (x # xs) ((b', a'), g))) # re_scan r (x # b) xs [x]"
  by (subst re_scan.simps) simp

section \<open>The section splitter covers the text from the first marker on\<close>

declare re_scan.simps [simp del]

lemma scan_starts:
  "(\<forall>m\<in>set (List.map_filter snd (re_scan r b a gap)).
       length b \<le> start m \<and> start m \<le> length b + length a)
   \<and> sorted_wrt (<) (map start (List.map_filter snd (re_scan r b a gap)))"
proof (induction "length a" arbitrary: b a gap rule: less_induct)
  case less
  show ?case
  proof (cases "match_here r (b, a)")
    case None
    show ?thesis
    proof (cases a)
      case Nil
      then show ?thesis using None by (simp add: scan_None_Nil List.map_filter_simps)
    next
      case (Cons x xs)
      have "length xs < length a" using Cons by simp
      from less[OF this, of "x # b" "x # gap"] show ?thesis
        using None Cons by (auto simp: scan_None_Cons)
    qed
  next
    case (Some st)
    obtain b' a' g where st: "st = ((b', a'), g)" by (metis prod.exhaust)
    have mh: "match_here r (b, a) = Some ((b', a'), g)" using Some st by simp
    note cur = rmatch_cursorD[OF match_hereD[OF mh]]
    show ?thesis
    proof (cases "length a' < length a")
      case True
      from less[OF True, of b' "[]"] cur(3) True show ?thesis
        by (auto simp: scan_Some_progress[OF mh True] List.map_filter_simps)
    next
      case False
      show ?thesis
      proof (cases a)
        case Nil
        then show ?thesis using mh by (simp add: scan_Some_stuck_Nil List.map_filter_simps)
      next
        case (Cons x xs)
        have l: "length xs < length a" using Cons by simp
        have eq: "re_scan r b (x # xs) gap =
          (rev gap, Some (mk_match b (x # xs) ((b', a'), g))) # re_scan r (x # b) xs [x]"
          using scan_Some_stuck_Cons mh False Cons by blast
        from less[OF l, of "x # b" "[x]"] show ?thesis
          unfolding Cons eq by (auto simp: List.map_filter_simps)
      qed
    qed
  qed
qed

lemma slice_drop:
  "i \<le> j \<Longrightarrow> slice text i j @ drop j text = drop i text"
proof -
  assume "i \<le> j"
  then have "drop j text = drop (j - i) (drop i text)" by simp
  then show ?thesis unfolding slice_def by (metis append_take_drop_id)
qed

lemma concat_sections:
  "sorted_wrt (<) (map start (m # ms)) \<Longrightarrow> \<forall>m'\<in>set (m # ms). start m' \<le> length text \<Longrightarrow>
   concat (sections text (m # ms)) = drop (start m) text"
proof (induction ms arbitrary: m)
  case Nil
  then show ?case by (simp add: slice_def)
next
  case (Cons m' ms)
  have "concat (sections text (m' # ms)) = drop (start m') text"
    using Cons.prems by (intro Cons.IH) auto
  moreover have "start m \<le> start m'" using Cons.prems by simp
  ultimately show ?case using slice_drop[of "start m" "start m'" "text"] by simp
qed

lemma length_sections: "length (sections text ms) = length ms"
  by (induction ms) auto

lemma finditer_starts:
  "(\<forall>m\<in>set (re_finditer r text). start m \<le> length text)
   \<and> sorted_wrt (<) (map start (re_finditer r text))"
  using scan_starts[of r "[]" "text" "[]"] by (simp add: re_finditer_def)

lemma sections_nth:
  "i < length ms \<Longrightarrow>
   sections text ms ! i
     = slice text (start (ms ! i)) (if Suc i < length ms then start (ms ! Suc i) else length text)"
proof (induction ms arbitrary: i)
  case Nil
  then show ?case by simp
next
  case (Cons m ms)
  show ?case
  proof (cases i)
    case 0
    then show ?thesis by (cases ms) simp_all
  next
    case (Suc j)
    then have "j < length ms" using Cons.prems by simp
    from Cons.IH[OF this] show ?thesis using Suc by simp
  qed
qed

text \<open>
  C1 (as it holds). A page without a marker is its own single section. On a page with
  markers the splitter returns one section per marker, in marker order: section \<open>i\<close> is
  the text from the offset of marker \<open>i\<close> to the offset of marker \<open>i + 1\<close>, or to the end
  of the page for the last marker. The markers are at strictly increasing offsets within
  the page, so no marker is dropped and no two sections overlap, and the sections,
  concatenated in order, are the page text from the offset of the first marker on. The
  text before the first marker belongs to no section, so the concatenation is the whole
  page only when the first marker is at offset 0.
\<close>

theorem split_sections_cover:
  "(case re_finditer marker_re text of
      [] \<Rightarrow> split_employee_sections text = [text]
    | m # ms \<Rightarrow>
        length (split_employee_sections text) = length (m # ms)
        \<and> (\<forall>i<length (m # ms).
              split_employee_sections text ! i
                = slice text (start ((m # ms) ! i))
                    (if Suc i < length (m # ms) then start ((m # ms) ! Suc i) else length text))
        \<and> sorted_wrt (<) (map start (m # ms))
        \<and> (\<forall>m'\<in>set (m # ms). start m' \<le> length text)
        \<and> concat (split_employee_sections text) = drop (start m) text)"
proof (cases "re_finditer marker_re text")
  case Nil
  then show ?thesis by (simp add: split_employee_sections_def)
next
  case (Cons m ms)
  from finditer_starts[of marker_re "text"] Cons
  have s: "sorted_wrt (<) (map start (m # ms))"
    and b: "\<forall>m'\<in>set (m # ms). start m' \<le> length text" by auto
  have c: "concat (sections text (m # ms)) = drop (start m) text"
    using s b by (rule concat_sections)
  have e: "split_employee_sections text = sections text (m # ms)"
    using Cons by (simp add: split_employee_sections_def)
  have n: "\<forall>i<length (m # ms).
      sections text (m # ms) ! i
        = slice text (start ((m # ms) ! i))
            (if Suc i < length (m # ms) then start ((m # ms) ! Suc i) else length text)"
    using sections_nth[of _ "m # ms" "text"] by blast
  have l: "length (sections text (m # ms)) = length (m # ms)" by (rule length_sections)
  show ?thesis unfolding Cons list.case e using l n s b c by blast
qed

text \<open>A page with two markers, at offsets 4 and 24.\<close>

theorem split_sections_cover_witness:
  "split_employee_sections ''W-2 Employee's name Ann Employees SSN 1''
     = [''Employee's name Ann '', ''Employees SSN 1'']
   \<and> concat (split_employee_sections ''W-2 Employee's name Ann Employees SSN 1'')
       = ''Employee's name Ann Employees SSN 1''"
proof -
  let ?T = "''W-2 Employee's name Ann Employees SSN 1''"
  have m: "map start (re_finditer marker_re ?T) = [4, 24]"
    by code_simp
  then obtain m1 m2 where
    ms: "re_finditer marker_re ?T = [m1, m2]"
    and s: "start m1 = 4" "start m2 = 24" by auto
  from split_sections_cover[of ?T]
  have l: "length (split_employee_sections ?T) = 2"
    and n: "\<forall>i<2. split_employee_sections ?T ! i
        = slice ?T (start ([m1, m2] ! i)) (if Suc i < 2 then start ([m1, m2] ! Suc i) else length ?T)"
    and c: "concat (split_employee_sections ?T) = drop 4 ?T"
    unfolding ms by (simp_all add: s)
  have n0: "split_employee_sections ?T ! 0 = ''Employee's name Ann ''"
    using n[rule_format, of 0] by (simp add: s slice_def)
  have n1: "split_employee_sections ?T ! 1 = ''Employees SSN 1''"
    using n[rule_format, of 1] by (simp add: s slice_def)
  from l have "\<exists>x y. split_employee_sections ?T = [x, y]"
    by (auto simp: length_Suc_conv numeral_2_eq_2)
  then obtain x y where xy: "split_employee_sections ?T = [x, y]" by blast
  show ?thesis using n0 n1 c unfolding xy by simp
qed

text \<open>
  C1 as stated fails: on this page the sections do not add up to the page, because the
  text \<open>W-2\<close> before the first marker is in no section.
\<close>

theorem split_sections_drop_prefix:
  "concat (split_employee_sections ''W-2 Employee's name Ann'') \<noteq> ''W-2 Employee's name Ann''"
  by code_simp

section \<open>The records that are emitted\<close>

lemma truthy_not_None: "truthy x \<Longrightarrow> x \<noteq> None"
  by (cases x) auto

lemma any_values_non_null: "any_values e \<Longrightarrow> has_non_null e"
  unfolding any_values_def has_non_null_def using truthy_not_None by blast

lemma emit_any: "\<forall>e\<in>set acc. any_values e \<Longrightarrow> \<forall>e\<in>set (emit t acc). any_values e"
  by (auto simp: emit_def Let_def)

lemma fold_emit_any: "\<forall>e\<in>set acc. any_values e \<Longrightarrow> \<forall>e\<in>set (fold emit ts acc). any_values e"
proof (induction ts arbitrary: acc)
  case Nil then show ?case by simp
next
  case (Cons t ts)
  from Cons.IH[OF emit_any[OF Cons.prems, of t]] show ?case by simp
qed

lemma collect_any:
  "\<forall>e\<in>set acc. any_values e \<Longrightarrow> \<forall>e\<in>set (collect w2 ps acc). any_values e"
proof (induction ps arbitrary: acc)
  case Nil then show ?case by simp
next
  case (Cons p ps)
  show ?case
    using Cons.IH[OF Cons.prems] Cons.IH[OF emit_any[OF Cons.prems, of p]]
      Cons.IH[OF fold_emit_any[OF Cons.prems, of "split_employee_sections p"]]
    by simp
qed

lemma emitted_any: "\<forall>e\<in>set (emitted_employees pages). any_values e"
  unfolding emitted_employees_def Let_def by (rule collect_any) simp

text \<open>
  C3. Every record appended to \<open>employees\<close> has passed \<open>any(employee.values())\<close>, so a
  record whose fields are all \<open>None\<close> or empty is discarded before deduplication; and
  every record of the result has a field that is set (so it has a non-null field).
\<close>

theorem emitted_records_have_a_field:
  "(\<forall>e\<in>set (emitted_employees pages). any_values e)
   \<and> (\<forall>e\<in>set (extract_employees_from_pages pages). any_values e \<and> has_non_null e)"
proof -
  have "set (extract_employees_from_pages pages) \<subseteq> set (emitted_employees pages)"
    unfolding extract_employees_from_pages_def by (rule set_dedup)
  then show ?thesis using emitted_any any_values_non_null by blast
qed

text \<open>A page with a name and a blank page: one record, with a name.\<close>

theorem emitted_records_have_a_field_witness:
  "extract_employees_from_pages [''Ann B'', ''  ''] \<noteq> []
   \<and> has_non_null (hd (extract_employees_from_pages [''Ann B'', ''  '']))"
proof -
  have e: "extract_employees_from_pages [''Ann B'', ''  ''] =
    [\<lparr>e_ssn = None, e_first = Some ''Ann'', e_middle = None, e_last = Some ''B'',
      e_wages = None, e_state_wages = None, e_state_withheld = None, e_mapfml = None\<rparr>]"
    by code_simp
  from emitted_records_have_a_field[of "[''Ann B'', ''  '']"] show ?thesis
    unfolding e by simp
qed

lemma contains_hd: "contains (c # sub) s \<Longrightarrow> c \<in> set s"
  by (induction s) auto

lemma w2_page_not_blank: "is_w2_page p \<Longrightarrow> strip p \<noteq> []"
proof -
  assume "is_w2_page p"
  then have "CHR ''W'' \<in> set p" unfolding is_w2_page_def using contains_hd by fastforce
  moreover have "\<not> is_space CHR ''W''" by (simp add: is_space_def)
  ultimately show ?thesis using strip_eq_Nil_iff by blast
qed

lemma collect_whole_pages:
  "\<forall>p\<in>set ps. p \<in> set w2 \<and> strip p \<noteq> [] \<Longrightarrow>
   collect w2 ps acc = acc @ filter any_values (map extract_employee_from_page ps)"
  by (induction ps arbitrary: acc) (auto simp: emit_def Let_def)

text \<open>
  C9. When some page contains both \<open>W-2\<close> and \<open>Employee\<close> (case-sensitively), the
  emitted records are exactly the records extracted from the qualifying pages, each page
  taken whole and in page order, that have a field set: the other pages contribute
  nothing and no page is split into sections. The result is the deduplication of that list.
\<close>

theorem w2_pages_are_whole_units:
  "\<exists>p\<in>set pages. is_w2_page p \<Longrightarrow>
   emitted_employees pages
     = filter any_values (map extract_employee_from_page (filter is_w2_page pages))
   \<and> extract_employees_from_pages pages
     = dedup (filter any_values (map extract_employee_from_page (filter is_w2_page pages))) {} []"
proof -
  assume "\<exists>p\<in>set pages. is_w2_page p"
  then have ne: "filter is_w2_page pages \<noteq> []" by (simp add: filter_empty_conv)
  have "\<forall>p\<in>set (filter is_w2_page pages). p \<in> set (filter is_w2_page pages) \<and> strip p \<noteq> []"
    using w2_page_not_blank by simp
  from collect_whole_pages[OF this, of "[]"] ne
  have "emitted_employees pages
     = filter any_values (map extract_employee_from_page (filter is_w2_page pages))"
    by (simp add: emitted_employees_def)
  then show ?thesis by (simp add: extract_employees_from_pages_def)
qed


text \<open>Of two pages only the second qualifies: the first contributes nothing.\<close>

theorem w2_pages_are_whole_units_witness:
  "is_w2_page ''W-2 Employee Ann''
   \<and> extract_employees_from_pages [''Bob C'', ''W-2 Employee Ann'']
      = dedup (filter any_values [extract_employee_from_page ''W-2 Employee Ann'']) {} []"
proof -
  have w: "is_w2_page ''W-2 Employee Ann''" by code_simp
  have n: "\<not> is_w2_page ''Bob C''" by code_simp
  have h: "\<exists>p\<in>set [''Bob C'', ''W-2 Employee Ann'']. is_w2_page p" using w by simp
  from w2_pages_are_whole_units[OF h] w n show ?thesis by simp
qed

section \<open>The endpoint and its failure modes\<close>

lemma has_text_iff: "has_text ts \<longleftrightarrow> list_ex (list_ex (\<lambda>c. \<not> is_space c)) ts"
  by (simp add: has_text_def list_ex_iff strip_eq_Nil_iff)

lemma plumber_text_iff:
  "has_text (map (\<lambda>t. case t of None \<Rightarrow> [] | Some s \<Rightarrow> s) ts)
   \<longleftrightarrow> list_ex (\<lambda>t. case t of None \<Rightarrow> False | Some s \<Rightarrow> list_ex (\<lambda>c. \<not> is_space c) s) ts"
  by (induction ts) (auto simp: has_text_def strip_eq_Nil_iff list_ex_iff split: option.splits)

lemma has_text_nonempty: "has_text ts \<Longrightarrow> ts \<noteq> []"
  by (auto simp: has_text_def)

lemma pdfplumber_pages:
  "extract_pages_pdfplumber l =
     (if l = Fails then Inl BackendError
      else if yields_text_pdfplumber l
      then Inr (Some (map (\<lambda>t. case t of None \<Rightarrow> [] | Some s \<Rightarrow> s) (case l of Opens ts \<Rightarrow> ts)))
      else Inr None)"
  by (cases l) (simp_all add: extract_pages_pdfplumber_def yields_text_pdfplumber_def
      plumber_text_iff Let_def)

lemma pymupdf_pages:
  "extract_pages_pymupdf l =
     (if l = Fails then Inl BackendError
      else if yields_text_pymupdf l then Inr (Some (case l of Opens ts \<Rightarrow> ts))
      else Inr None)"
  by (cases l) (simp_all add: extract_pages_pymupdf_def yields_text_pymupdf_def has_text_iff)

lemma pdfplumber_pages_nonempty:
  "extract_pages_pdfplumber l = Inr (Some ps) \<Longrightarrow> ps \<noteq> []"
  by (cases l) (auto simp: extract_pages_pdfplumber_def Let_def dest: has_text_nonempty split: if_splits)

lemma pymupdf_pages_nonempty:
  "extract_pages_pymupdf l = Inr (Some ps) \<Longrightarrow> ps \<noteq> []"
  by (cases l) (auto simp: extract_pages_pymupdf_def dest: has_text_nonempty split: if_splits)

lemma is_result_build: "is_result method (build_result method pages)"
  by (simp add: is_result_def build_result_def Let_def)

text \<open>
  C2 (as it holds). The handler guards only the import of each library. If pdfplumber
  raises while it opens or reads the document, or if pdfplumber yields no page with a
  character that is not whitespace and PyMuPDF raises, the exception leaves the handler.
  Otherwise: if pdfplumber yields such a page the response is a result with method
  \<open>pdfplumber\<close>, a \<open>fields\<close> object and the fixed warning; else if PyMuPDF yields such a
  page the response is such a result with method \<open>pymupdf\<close>; else the response is the
  error response with status 422 and the error message, which has no \<open>fields\<close>.
\<close>

theorem endpoint_outcomes:
  "(pdfplumber data = Fails \<or> (\<not> yields_text_pdfplumber (pdfplumber data) \<and> fitz data = Fails)
      \<longrightarrow> extract_endpoint pdfplumber fitz data = Inl BackendError)
   \<and> (pdfplumber data \<noteq> Fails \<and> yields_text_pdfplumber (pdfplumber data)
      \<longrightarrow> (\<exists>resp. extract_endpoint pdfplumber fitz data = Inr resp \<and> is_result ''pdfplumber'' resp))
   \<and> (pdfplumber data \<noteq> Fails \<and> \<not> yields_text_pdfplumber (pdfplumber data)
       \<and> fitz data \<noteq> Fails \<and> yields_text_pymupdf (fitz data)
      \<longrightarrow> (\<exists>resp. extract_endpoint pdfplumber fitz data = Inr resp \<and> is_result ''pymupdf'' resp))
   \<and> (pdfplumber data \<noteq> Fails \<and> \<not> yields_text_pdfplumber (pdfplumber data)
       \<and> fitz data \<noteq> Fails \<and> \<not> yields_text_pymupdf (fitz data)
      \<longrightarrow> extract_endpoint pdfplumber fitz data = Inr (JSONResponse 422 error_message))"
proof -
  have ne1: "\<not> no_pages (Some ps)" if "extract_pages_pdfplumber l = Inr (Some ps)" for l ps
    using pdfplumber_pages_nonempty[OF that] by (simp add: no_pages_def)
  have ne2: "\<not> no_pages (Some ps)" if "extract_pages_pymupdf l = Inr (Some ps)" for l ps
    using pymupdf_pages_nonempty[OF that] by (simp add: no_pages_def)
  show ?thesis
    using ne1[of "pdfplumber data"] ne2[of "fitz data"]
    by (auto simp: extract_endpoint_def pdfplumber_pages pymupdf_pages is_result_build no_pages_def
        split: sum.splits if_splits)
qed

text \<open>pdfplumber is not installed and PyMuPDF returns one blank page: status 422.\<close>

theorem endpoint_outcomes_witness:
  "extract_endpoint (\<lambda>d. NotInstalled) (\<lambda>d. Opens [''  '']) ''%PDF''
     = Inr (JSONResponse 422 error_message)"
proof -
  have h: "(NotInstalled :: string option list library) \<noteq> Fails
     \<and> \<not> yields_text_pdfplumber NotInstalled
     \<and> Opens [''  ''] \<noteq> Fails \<and> \<not> yields_text_pymupdf (Opens [''  ''])"
    by (simp add: yields_text_pdfplumber_def yields_text_pymupdf_def is_space_def)
  from endpoint_outcomes[of "\<lambda>d. NotInstalled" "''%PDF''" "\<lambda>d. Opens [''  '']"] h
  show ?thesis by blast
qed

text \<open>
  C2 as stated fails: pdfplumber raises on bytes that are not a PDF, so no backend yields
  a page with text, and the handler does not return the error response: the exception
  propagates.
\<close>

theorem endpoint_backend_exception:
  "\<not> yields_text_pdfplumber Fails \<and> \<not> yields_text_pymupdf NotInstalled
   \<and> extract_endpoint (\<lambda>d. Fails) (\<lambda>d. NotInstalled) ''not a PDF'' = Inl BackendError
   \<and> extract_endpoint (\<lambda>d. Fails) (\<lambda>d. NotInstalled) ''not a PDF''
       \<noteq> Inr (JSONResponse 422 error_message)"
  by (simp add: yields_text_pdfplumber_def yields_text_pymupdf_def extract_endpoint_def
      extract_pages_pdfplumber_def)

section \<open>What a match reads and what its group holds\<close>

lemma rmatch_Grp:
  assumes "st' \<in> set (rmatch (Grp r) st)"
  shows "\<exists>w\<in>lang r. snd st' = Some w"
proof -
  obtain b a g where st: "st = ((b, a), g)" by (metis prod.exhaust)
  from assms st have "st' \<in> set (map (set_group a) (rmatch r ((b, a), g)))"
    by (simp only: rmatch.simps)
  then obtain m where m: "m \<in> set (rmatch r ((b, a), g))" and s: "st' = set_group a m"
    by (auto simp del: rmatch.simps)
  from rmatch_lang[OF m] obtain w where w: "w \<in> lang r" "consumed ((b, a), g) m w" by blast
  then have "snd st' = Some w" using s by (cases m) (auto simp: consumed_def)
  then show ?thesis using w(1) by blast
qed

lemma no_group_keeps:
  "no_group r \<Longrightarrow> st' \<in> set (rmatch r st) \<Longrightarrow> snd st' = snd st"
proof (induction r st arbitrary: st' rule: rmatch.induct)
  case (4 r1 r2 st)
  from "4.prems"(2) have "st' \<in> set (concat (map (rmatch r2) (rmatch r1 st)))"
    by (simp only: rmatch.simps)
  then obtain m where m: "m \<in> set (rmatch r1 st)" and s: "st' \<in> set (rmatch r2 m)"
    by (auto simp del: rmatch.simps)
  from "4.IH"(1)[OF _ m] "4.IH"(2)[OF m _ s] "4.prems"(1) show ?case by simp
next
  case (5 r1 r2 st)
  from "5.prems"(2) have "st' \<in> set (rmatch r1 st @ rmatch r2 st)" by (simp only: rmatch.simps)
  then have "st' \<in> set (rmatch r1 st) \<or> st' \<in> set (rmatch r2 st)" by (auto simp del: rmatch.simps)
  moreover have "no_group r1" "no_group r2" using "5.prems"(1) by simp_all
  ultimately show ?case using "5.IH" by blast
next
  case (6 r st)
  from "6.prems"(2) have "st' \<in> set (rmatch r st @ [st])" by (simp only: rmatch.simps)
  then have "st' \<in> set (rmatch r st) \<or> st' = st" by (auto simp del: rmatch.simps)
  moreover have "no_group r" using "6.prems"(1) by simp
  ultimately show ?case using "6.IH" by blast
next
  case (7 r b a g)
  from "7.prems"(2) have "st' \<in> set (concat (map (rmatch (Star r))
      (filter (progress a) (rmatch r ((b, a), g)))) @ [((b, a), g)])"
    by (simp only: rmatch.simps)
  then consider "st' = ((b, a), g)"
    | m where "m \<in> set (rmatch r ((b, a), g))" "progress a m" "st' \<in> set (rmatch (Star r) m)"
    by (auto simp del: rmatch.simps)
  then show ?case
  proof cases
    case 1 then show ?thesis by simp
  next
    case 2
    have f: "m \<in> set (filter (progress a) (rmatch r ((b, a), g)))" using 2 by (simp del: rmatch.simps)
    from "7.IH"(1)[OF _ 2(1)] "7.IH"(2)[OF f "7.prems"(1) 2(3)] "7.prems"(1) show ?thesis by simp
  qed
next
  case (8 r b a g)
  from "8.prems"(2) have "st' \<in> set (((b, a), g) # concat (map (rmatch (StarLazy r))
      (filter (progress a) (rmatch r ((b, a), g)))))"
    by (simp only: rmatch.simps)
  then consider "st' = ((b, a), g)"
    | m where "m \<in> set (rmatch r ((b, a), g))" "progress a m" "st' \<in> set (rmatch (StarLazy r) m)"
    by (auto simp del: rmatch.simps)
  then show ?case
  proof cases
    case 1 then show ?thesis by simp
  next
    case 2
    have f: "m \<in> set (filter (progress a) (rmatch r ((b, a), g)))" using 2 by (simp del: rmatch.simps)
    from "8.IH"(1)[OF _ 2(1)] "8.IH"(2)[OF f "8.prems"(1) 2(3)] "8.prems"(1) show ?thesis by simp
  qed
qed (auto split: if_splits)

lemma sets_group_sound:
  "sets_group Q r \<Longrightarrow> st' \<in> set (rmatch r st) \<Longrightarrow> \<exists>w. snd st' = Some w \<and> Q w"
proof (induction r arbitrary: st st')
  case (Seq r1 r2)
  from Seq.prems(2) have "st' \<in> set (concat (map (rmatch r2) (rmatch r1 st)))"
    by (simp only: rmatch.simps)
  then obtain m where m: "m \<in> set (rmatch r1 st)" and s: "st' \<in> set (rmatch r2 m)"
    by (auto simp del: rmatch.simps)
  from Seq.prems(1) consider "sets_group Q r2" | "sets_group Q r1" "no_group r2" by auto
  then show ?case
  proof cases
    case 1 from Seq.IH(2)[OF 1 s] show ?thesis .
  next
    case 2
    from Seq.IH(1)[OF 2(1) m] no_group_keeps[OF 2(2) s] show ?thesis by simp
  qed
next
  case (Grp r)
  from rmatch_Grp[OF Grp.prems(2)] Grp.prems(1) show ?case by auto
qed simp_all

section \<open>The shape of an extracted amount\<close>

lemma search_from_match:
  "re_search_from r b a = Some m \<Longrightarrow>
   \<exists>b0 a0 st'. st' \<in> set (rmatch r ((b0, a0), None)) \<and> group1 m = snd st'"
proof (induction a arbitrary: b)
  case Nil
  then obtain st' where "match_here r (b, []) = Some st'" "m = mk_match b [] st'" by auto
  then have "st' \<in> set (rmatch r ((b, []), None))" "group1 m = snd st'"
    by (cases st'; cases "fst st'"; auto simp: match_here_def split: list.splits)+
  then show ?case by blast
next
  case (Cons x xs)
  show ?case
  proof (cases "match_here r (b, x # xs)")
    case None
    then show ?thesis using Cons by simp
  next
    case (Some st')
    then have "m = mk_match b (x # xs) st'" using Cons.prems by simp
    then have "st' \<in> set (rmatch r ((b, x # xs), None))" "group1 m = snd st'"
      using Some by (cases st'; cases "fst st'"; auto simp: match_here_def split: list.splits)+
    then show ?thesis by blast
  qed
qed

lemma search_group:
  "sets_group Q r \<Longrightarrow> re_search r t = Some m \<Longrightarrow> \<exists>w. group1 m = Some w \<and> Q w"
  unfolding re_search_def using search_from_match sets_group_sound by metis

lemma first_match_group:
  "sets_group Q r \<Longrightarrow> first_match r t = Some v \<Longrightarrow> \<exists>w. Q w \<and> v = strip w"
proof -
  assume q: "sets_group Q r" and f: "first_match r t = Some v"
  then obtain m where m: "re_search r t = Some m" and v: "map_option strip (group1 m) = Some v"
    by (auto simp: first_match_def split: option.splits)
  from search_group[OF q m] v show ?thesis by auto
qed

lemma first_match_None_iff:
  "sets_group Q r \<Longrightarrow> first_match r t = None \<longleftrightarrow> re_search r t = None"
proof -
  assume q: "sets_group Q r"
  show ?thesis
  proof (cases "re_search r t")
    case None then show ?thesis by (simp add: first_match_def)
  next
    case (Some m)
    from search_group[OF q Some] Some show ?thesis by (auto simp: first_match_def)
  qed
qed

lemma takeWhile_run:
  "\<forall>x\<in>set xs. P x \<Longrightarrow> ys = [] \<or> \<not> P (hd ys) \<Longrightarrow>
   takeWhile P (xs @ ys) = xs \<and> dropWhile P (xs @ ys) = ys"
  by (induction xs) (auto simp: takeWhile_eq_Nil_iff dropWhile_eq_self_iff)

lemma star_class:
  "set us \<subseteq> {[c] | c. P c} \<Longrightarrow> \<forall>x\<in>set (concat us). P x"
  by (induction us) auto

lemma not_amount_dot: "\<not> is_amount_char CHR ''.''"
  by (simp add: is_amount_char_def is_digit_def)

lemma amount_lang: "w \<in> lang amount_re \<Longrightarrow> money_shape w"
proof -
  assume "w \<in> lang amount_re"
  then obtain u v where w: "w = u @ v"
    and u: "u \<in> lang (Plus (Chr is_amount_char))"
    and v: "v \<in> lang (Opt (Seq (ch CHR ''.'') (Rep 2 digit)))"
    by (auto simp: amount_re_def)
  from u obtain c us where uc: "u = c # concat us" "is_amount_char c"
    "set us \<subseteq> {[c] | c. is_amount_char c}"
    by (auto simp: Plus_def)
  have ua: "\<forall>x\<in>set u. is_amount_char x" using uc star_class[OF uc(3)] by auto
  from v have vs: "v = [] \<or> (\<exists>x y. v = [CHR ''.'', x, y] \<and> is_digit x \<and> is_digit y)"
    by (auto simp: ch_def Rep_def seqs_def digit_def numeral_2_eq_2)
  then have "v = [] \<or> \<not> is_amount_char (hd v)" using not_amount_dot by auto
  from takeWhile_run[OF ua this] have t: "takeWhile is_amount_char w = u"
    "dropWhile is_amount_char w = v" using w by auto
  show ?thesis unfolding money_shape_def Let_def t using uc(1) vs by auto
qed

lemma money_shape_strip: "money_shape w \<Longrightarrow> strip w = w"
proof -
  assume m: "money_shape w"
  let ?u = "takeWhile is_amount_char w" and ?v = "dropWhile is_amount_char w"
  have w: "w = ?u @ ?v" by simp
  have sp: "\<not> is_space c" if "is_amount_char c" for c
    using that by (auto simp: is_amount_char_def is_digit_def is_space_def)
  have spd: "\<not> is_space c" if "is_digit c" for c
    using that by (auto simp: is_digit_def is_space_def)
  from m have u: "?u \<noteq> []" by (simp add: money_shape_def Let_def)
  then have "hd w = hd ?u" by (metis hd_append2 w)
  moreover have "is_amount_char (hd ?u)" using u by (metis hd_in_set set_takeWhileD)
  ultimately have h: "\<not> is_space (hd w)" using sp by simp
  from m have vs: "?v = [] \<or> (\<exists>p x y. ?v = [p, x, y] \<and> is_digit y)"
    by (auto simp: money_shape_def Let_def split: list.splits)
  have l: "\<not> is_space (last w)"
  proof (cases "?v = []")
    case True
    then have "w = ?u" using w by (metis append_Nil2)
    then have "last w \<in> set ?u" using u by (metis last_in_set)
    then show ?thesis using sp by (metis set_takeWhileD)
  next
    case False
    with vs obtain p x y where v: "?v = [p, x, y]" "is_digit y" by blast
    have "last w = last ?v" using False by (metis last_appendR w)
    then show ?thesis using v spd by simp
  qed
  from h l show ?thesis by (intro strip_id) simp
qed

lemma no_group_lit_ci: "no_group (lit_ci s)"
  by (induction s) (simp_all add: lit_ci_def seqs_def ci_def)

lemma sets_group_seqs_last:
  "sets_group Q (Grp g) \<Longrightarrow> sets_group Q (seqs (rs @ [Grp g]))"
  by (induction rs) (simp_all add: seqs_def)

lemma sets_group_lit_ci:
  "sets_group Q r \<Longrightarrow> sets_group Q (Seq (lit_ci s) r)"
  by simp

lemma money_shape_chars:
  assumes "money_shape v"
  shows "\<forall>c\<in>set v. is_digit c \<or> c = CHR '','' \<or> c = CHR ''.''"
    and "length (filter (\<lambda>c. c = CHR ''.'') v) \<le> 1"
proof -
  let ?u = "takeWhile is_amount_char v" and ?r = "dropWhile is_amount_char v"
  have v: "v = ?u @ ?r" by simp
  have u: "\<forall>c\<in>set ?u. is_digit c \<or> c = CHR '',''"
    using set_takeWhileD[of _ is_amount_char v] by (auto simp: is_amount_char_def)
  have nd: "c \<noteq> CHR ''.''" if "is_digit c" for c using that by (auto simp: is_digit_def)
  from assms have r: "?r = [] \<or> (\<exists>x y. ?r = [CHR ''.'', x, y] \<and> is_digit x \<and> is_digit y)"
    by (auto simp: money_shape_def Let_def split: list.splits)
  have "\<forall>c\<in>set ?r. is_digit c \<or> c = CHR '','' \<or> c = CHR ''.''"
  proof (cases "?r = []")
    case True
    then show ?thesis by (metis empty_iff empty_set)
  next
    case False
    with r obtain x y where "?r = [CHR ''.'', x, y]" "is_digit x" "is_digit y" by blast
    then show ?thesis by (metis insert_iff empty_iff list.simps(15) empty_set)
  qed
  moreover have "set v = set ?u \<union> set ?r" by (metis set_append takeWhile_dropWhile_id)
  ultimately show "\<forall>c\<in>set v. is_digit c \<or> c = CHR '','' \<or> c = CHR ''.''"
    using u by blast
  have "filter (\<lambda>c. c = CHR ''.'') ?u = []" using u nd by (auto simp: filter_empty_conv)
  moreover have "length (filter (\<lambda>c. c = CHR ''.'') ?r) \<le> 1"
  proof (cases "?r = []")
    case True
    then show ?thesis by (simp del: dropWhile_eq_Nil_conv)
  next
    case False
    with r obtain x y where "?r = [CHR ''.'', x, y]" "is_digit x" "is_digit y" by blast
    then show ?thesis using nd by (simp del: dropWhile_eq_Nil_conv)
  qed
  moreover have "filter (\<lambda>c. c = CHR ''.'') v
      = filter (\<lambda>c. c = CHR ''.'') ?u @ filter (\<lambda>c. c = CHR ''.'') ?r"
    by (metis filter_append takeWhile_dropWhile_id)
  ultimately show "length (filter (\<lambda>c. c = CHR ''.'') v) \<le> 1" by simp
qed

text \<open>
  C7. Whatever the label and the text, a value returned by the money extraction is one or
  more digits and commas, followed by nothing or by one decimal point and exactly two
  digits. So every character of it is a digit, a comma or a point, and it has at most one
  point: no currency sign, no space, no other character.
\<close>

theorem money_value_shape:
  "extract_money label text = Some v \<Longrightarrow>
   money_shape v
   \<and> (\<forall>c\<in>set v. is_digit c \<or> c = CHR '','' \<or> c = CHR ''.'')
   \<and> length (filter (\<lambda>c. c = CHR ''.'') v) \<le> 1"
proof -
  assume e: "extract_money label text = Some v"
  have "sets_group money_shape (Grp amount_re)" using amount_lang by simp
  then have "sets_group money_shape (money_re label)"
    unfolding money_re_def seqs_def by simp
  from first_match_group[OF this] e obtain w where "money_shape w" "v = strip w"
    unfolding extract_money_def by blast
  then have "money_shape v" using money_shape_strip by simp
  then show ?thesis using money_shape_chars by blast
qed

text \<open>
  The currency sign before the amount and the third decimal after it are left out; and a
  label with the letter 0xE9 finds the amount after its upper-case form 0xC9.
\<close>

theorem money_value_shape_witness:
  "extract_money ''Wages'' ''wages $1,234.567'' = Some ''1,234.56''
   \<and> money_shape ''1,234.56''
   \<and> length (filter (\<lambda>c. c = CHR ''.'') ''1,234.56'') \<le> 1
   \<and> extract_money [CHR 0xE9] [CHR 0xC9, CHR ''1''] = Some ''1''
   \<and> money_shape ''1''"
proof -
  have e: "extract_money ''Wages'' ''wages $1,234.567'' = Some ''1,234.56''" by code_simp
  have f: "extract_money [CHR 0xE9] [CHR 0xC9, CHR ''1''] = Some ''1''" by code_simp
  from money_value_shape[OF e] money_value_shape[OF f] e f show ?thesis by blast
qed

section \<open>State wages and state income tax: two tokens or nothing\<close>

lemma line_lang: "w \<in> lang (Plus not_nl) \<Longrightarrow> w \<noteq> [] \<and> CHR 0x0A \<notin> set w"
proof -
  assume "w \<in> lang (Plus not_nl)"
  then obtain c us where w: "w = c # concat us" "c \<noteq> CHR 0x0A"
    "set us \<subseteq> {[c] | c. c \<noteq> CHR 0x0A}"
    by (auto simp: Plus_def not_nl_def)
  from star_class[OF w(3)] w(1,2) show ?thesis by auto
qed

lemma state_line_shape: "state_line t = Some line \<Longrightarrow> line \<noteq> [] \<and> CHR 0x0A \<notin> set line"
proof -
  assume s: "state_line t = Some line"
  have "sets_group (\<lambda>w. w \<noteq> [] \<and> CHR 0x0A \<notin> set w) state_re"
    using line_lang by (simp add: state_re_def seqs_def)
  moreover from s obtain m where "re_search state_re t = Some m" "group1 m = Some line"
    by (auto simp: state_line_def split: option.splits)
  ultimately show ?thesis using search_group by fastforce
qed

text \<open>
  Every pattern that the program hands to \<open>first_match\<close> sets its group in every match,
  so \<open>match.group(1)\<close> is a string whenever there is a match.
\<close>

lemma program_patterns_set_group:
  "sets_group (\<lambda>w. True) name_re"
  "sets_group (\<lambda>w. True) (money_re label)"
  "sets_group (\<lambda>w. True) employer_name_re"
  "sets_group (\<lambda>w. True) employer_ein_re"
  "sets_group (\<lambda>w. True) ssn_re"
  "sets_group (\<lambda>w. True) ssn9_re"
  "sets_group (\<lambda>w. True) first_name_re"
  "sets_group (\<lambda>w. True) wages_line_re"
  "sets_group (\<lambda>w. True) mapfml_re"
  by (simp_all add: name_re_def money_re_def employer_name_re_def employer_ein_re_def
      ssn_re_def ssn9_re_def first_name_re_def wages_line_re_def mapfml_re_def seqs_def)

lemma first_match_of_search:
  "sets_group (\<lambda>w. True) r \<Longrightarrow> re_search r t = Some m \<Longrightarrow>
   \<exists>g. group1 m = Some g \<and> first_match r t = Some (strip g)"
  using search_group[of "\<lambda>w. True" r t m] by (auto simp: first_match_def)

text \<open>
  C6. When the combined caption pattern matches, with \<open>line\<close> the line it captures (a
  text that is not empty and has no newline): if the line has fewer than two
  decimal-with-cents tokens, both \<open>state_wages\<close> and
  \<open>state_withheld\<close> are \<open>None\<close>; if it has two or more, \<open>state_wages\<close> is the first
  token and \<open>state_withheld\<close> the second, the first lying to the left of the second. When
  the pattern does not match, both are \<open>None\<close> as well.
\<close>

theorem state_values_need_two_tokens:
  "(state_line text = None \<longrightarrow>
      extract_state_wages_and_tax text = \<lparr>sv_state_wages = None, sv_state_withheld = None\<rparr>)
   \<and> (\<forall>line. state_line text = Some line \<longrightarrow>
        line \<noteq> [] \<and> CHR 0x0A \<notin> set line
        \<and> (length (re_findall decimal_re line) < 2 \<longrightarrow>
           extract_state_wages_and_tax text
             = \<lparr>sv_state_wages = None, sv_state_withheld = None\<rparr>)
        \<and> (2 \<le> length (re_findall decimal_re line) \<longrightarrow>
           extract_state_wages_and_tax text
             = \<lparr>sv_state_wages = Some (re_findall decimal_re line ! 0),
                sv_state_withheld = Some (re_findall decimal_re line ! 1)\<rparr>
           \<and> start (re_finditer decimal_re line ! 0) < start (re_finditer decimal_re line ! 1)))"
proof -
  have "start (re_finditer decimal_re line ! 0) < start (re_finditer decimal_re line ! 1)"
    if "2 \<le> length (re_findall decimal_re line)" for line
  proof -
    from that have l: "2 \<le> length (re_finditer decimal_re line)" by (simp add: re_findall_def)
    have "sorted_wrt (<) (map start (re_finditer decimal_re line))"
      using finditer_starts by blast
    then show ?thesis using l by (simp add: sorted_wrt_iff_nth_less)
  qed
  then show ?thesis
    using state_line_shape by (auto simp: extract_state_wages_and_tax_def Let_def)
qed

text \<open>A line with one token, and a line with two.\<close>

theorem state_values_need_two_tokens_witness:
  "extract_state_wages_and_tax
     (''16 State wages 17 State income tax'' @ [CHR 0x0A] @ ''MA 1,234.50'')
     = \<lparr>sv_state_wages = None, sv_state_withheld = None\<rparr>
   \<and> extract_state_wages_and_tax
     (''16 State wages 17 State income tax'' @ [CHR 0x0A] @ ''MA 1,234.50 8.10'')
     = \<lparr>sv_state_wages = Some ''1,234.50'', sv_state_withheld = Some ''8.10''\<rparr>"
proof -
  have l1: "state_line (''16 State wages 17 State income tax'' @ [CHR 0x0A] @ ''MA 1,234.50'')
    = Some ''MA 1,234.50''" by code_simp
  have f1: "re_findall decimal_re ''MA 1,234.50'' = [''1,234.50'']" by code_simp
  have l2: "state_line (''16 State wages 17 State income tax'' @ [CHR 0x0A] @ ''MA 1,234.50 8.10'')
    = Some ''MA 1,234.50 8.10''" by code_simp
  have f2: "re_findall decimal_re ''MA 1,234.50 8.10'' = [''1,234.50'', ''8.10'']" by code_simp
  from state_values_need_two_tokens[of
      "''16 State wages 17 State income tax'' @ [CHR 0x0A] @ ''MA 1,234.50''"] l1 f1
  have a: "extract_state_wages_and_tax
     (''16 State wages 17 State income tax'' @ [CHR 0x0A] @ ''MA 1,234.50'')
     = \<lparr>sv_state_wages = None, sv_state_withheld = None\<rparr>"
    by simp
  from state_values_need_two_tokens[of
      "''16 State wages 17 State income tax'' @ [CHR 0x0A] @ ''MA 1,234.50 8.10''"] l2 f2
  have b: "extract_state_wages_and_tax
     (''16 State wages 17 State income tax'' @ [CHR 0x0A] @ ''MA 1,234.50 8.10'')
     = \<lparr>sv_state_wages = Some ''1,234.50'', sv_state_withheld = Some ''8.10''\<rparr>"
    by simp
  from a b show ?thesis by blast
qed

section \<open>Identity keys of emitted records\<close>

lemma digit_not_space: "is_digit c \<Longrightarrow> \<not> is_space c"
  by (auto simp: is_digit_def is_space_def)

lemma ssn9_group: "sets_group (\<lambda>w. \<exists>c\<in>set w. \<not> is_space c) ssn9_re"
proof -
  have "\<exists>c\<in>set w. \<not> is_space c" if "w \<in> lang (Rep 9 digit)" for w
  proof -
    from that obtain c v where "w = c # v" "is_digit c"
      by (auto simp: Rep_def seqs_def digit_def eval_nat_numeral)
    then show ?thesis using digit_not_space by auto
  qed
  then show ?thesis by (simp add: ssn9_re_def seqs_def)
qed

lemma ssn_not_empty: "e_ssn (extract_employee_from_page t) \<noteq> Some []"
proof -
  have b: "first_match ssn9_re t \<noteq> Some []"
  proof
    assume "first_match ssn9_re t = Some []"
    from first_match_group[OF ssn9_group this] obtain w
      where "\<exists>c\<in>set w. \<not> is_space c" "[] = strip w" by blast
    then show False using strip_eq_Nil_iff by metis
  qed
  have "py_or a (first_match ssn9_re t) \<noteq> Some []" for a
    using b by (cases a) (auto simp: py_or_def)
  then show ?thesis by (simp add: extract_employee_from_page_def Let_def)
qed

lemma emit_source:
  "set (emit t acc) \<subseteq> set acc \<union> range extract_employee_from_page"
  by (auto simp: emit_def Let_def)

lemma fold_emit_source:
  "set (fold emit ts acc) \<subseteq> set acc \<union> range extract_employee_from_page"
proof (induction ts arbitrary: acc)
  case Nil then show ?case by simp
next
  case (Cons t ts)
  from Cons.IH[of "emit t acc"] emit_source[of t acc] show ?case by auto
qed

lemma collect_source:
  "set (collect w2 ps acc) \<subseteq> set acc \<union> range extract_employee_from_page"
proof (induction ps arbitrary: acc)
  case Nil then show ?case by simp
next
  case (Cons p ps)
  from Cons.IH[of acc] Cons.IH[of "emit p acc"]
    Cons.IH[of "fold emit (split_employee_sections p) acc"]
    emit_source[of p acc] fold_emit_source[of "split_employee_sections p" acc]
  show ?case by auto
qed

lemma emitted_ssn: "e \<in> set (emitted_employees pages) \<Longrightarrow> e_ssn e \<noteq> Some []"
proof -
  assume "e \<in> set (emitted_employees pages)"
  then have "e \<in> range extract_employee_from_page"
    using collect_source[of _ _ "[]"] unfolding emitted_employees_def Let_def by auto
  then show ?thesis using ssn_not_empty by auto
qed

lemma key_of_emitted:
  "e_ssn e \<noteq> Some [] \<Longrightarrow>
   identity_key e =
     (case e_ssn e of Some s \<Rightarrow> s | None \<Rightarrow> py_str (e_first e) @ ''-'' @ py_str (e_last e))"
  by (cases "e_ssn e") (auto simp: identity_key_def)

text \<open>
  C4. The result is the list of emitted records with exactly those positions kept at
  which the identity key occurs for the first time, in their original order, each kept
  record unchanged. For an emitted record the identity key is the SSN when there is one,
  and otherwise the first name, a hyphen and the last name (a missing name is rendered
  \<open>None\<close>, as an f-string does). The first statement holds of the deduplication loop on
  any list of records, which is the last conjunct.
\<close>

theorem dedup_keeps_first_per_key:
  "extract_employees_from_pages pages
     = map (nth (emitted_employees pages))
         (filter (first_seen (emitted_employees pages)) [0..<length (emitted_employees pages)])
   \<and> (\<forall>e\<in>set (emitted_employees pages).
        identity_key e =
          (case e_ssn e of
             Some s \<Rightarrow> s
           | None \<Rightarrow> py_str (e_first e) @ ''-'' @ py_str (e_last e)))
   \<and> dedup es {} [] = map (nth es) (filter (first_seen es) [0..<length es])"
  using dedup_first_seen emitted_ssn key_of_emitted
  by (simp add: extract_employees_from_pages_def)

text \<open>
  Three pages: the second and third records share an SSN, so the third is dropped; the
  first record has no SSN and is kept under its name key.
\<close>

theorem dedup_keeps_first_per_key_witness:
  "extract_employees_from_pages [''Ann B'', ''Ann B x 123456789'', ''Cy 123456789'']
     = [\<lparr>e_ssn = None, e_first = Some ''Ann'', e_middle = None, e_last = Some ''B'',
          e_wages = None, e_state_wages = None, e_state_withheld = None, e_mapfml = None\<rparr>,
        \<lparr>e_ssn = Some ''123456789'', e_first = Some ''Ann'', e_middle = Some ''B x'',
          e_last = Some ''123456789'', e_wages = None, e_state_wages = None,
          e_state_withheld = None, e_mapfml = None\<rparr>]"
proof -
  let ?A = "\<lparr>e_ssn = None, e_first = Some ''Ann'', e_middle = None, e_last = Some ''B'',
          e_wages = None, e_state_wages = None, e_state_withheld = None, e_mapfml = None\<rparr>"
  let ?B = "\<lparr>e_ssn = Some ''123456789'', e_first = Some ''Ann'', e_middle = Some ''B x'',
          e_last = Some ''123456789'', e_wages = None, e_state_wages = None,
          e_state_withheld = None, e_mapfml = None\<rparr>"
  let ?C = "\<lparr>e_ssn = Some ''123456789'', e_first = Some ''Cy'', e_middle = None,
          e_last = Some ''123456789'', e_wages = None, e_state_wages = None,
          e_state_withheld = None, e_mapfml = None\<rparr>"
  have em: "emitted_employees [''Ann B'', ''Ann B x 123456789'', ''Cy 123456789'']
    = [?A, ?B, ?C]" by code_simp
  have fs: "filter (first_seen [?A, ?B, ?C]) [0..<length [?A, ?B, ?C]] = [0, 1]" by code_simp
  from dedup_keeps_first_per_key[of "[''Ann B'', ''Ann B x 123456789'', ''Cy 123456789'']"]
  show ?thesis unfolding em fs by simp
qed

section \<open>A text that is not blank yields a first name\<close>

lemma scan_gap:
  "re_scan r b a gap \<noteq> [] \<and> (\<exists>g0. fst (hd (re_scan r b a gap)) = rev gap @ g0)"
proof (induction "length a" arbitrary: b a gap rule: less_induct)
  case less
  show ?case
  proof (cases "match_here r (b, a)")
    case None
    show ?thesis
    proof (cases a)
      case Nil
      then show ?thesis using None by (simp add: scan_None_Nil)
    next
      case (Cons x xs)
      have "length xs < length a" using Cons by simp
      from less[OF this, of "x # b" "x # gap"] show ?thesis
        using None Cons by (auto simp: scan_None_Cons)
    qed
  next
    case (Some st)
    obtain b' a' g where st: "st = ((b', a'), g)" by (metis prod.exhaust)
    have mh: "match_here r (b, a) = Some ((b', a'), g)" using Some st by simp
    show ?thesis
    proof (cases "length a' < length a")
      case True
      show ?thesis by (simp add: scan_Some_progress[OF mh True])
    next
      case False
      show ?thesis
      proof (cases a)
        case Nil
        then show ?thesis using mh by (simp add: scan_Some_stuck_Nil)
      next
        case (Cons x xs)
        have "re_scan r b (x # xs) gap =
          (rev gap, Some (mk_match b (x # xs) ((b', a'), g))) # re_scan r (x # b) xs [x]"
          using scan_Some_stuck_Cons mh False Cons by blast
        then show ?thesis unfolding Cons by simp
      qed
    qed
  qed
qed

lemma ws_plus_no_match:
  "\<not> is_space x \<Longrightarrow> match_here (Seq (Plus ws) r) (b, x # xs) = None"
  by (simp add: match_here_def Plus_def ws_def)

lemma ws_plus_no_match':
  "\<not> is_space x \<Longrightarrow> match_here ws_plus (b, x # xs) = None"
  by (simp add: match_here_def ws_plus_def Plus_def ws_def)

lemma scan_first_char:
  assumes "match_here r ([], x # s) = None"
  shows "\<exists>t m rest. re_scan r [] (x # s) [] = (x # t, m) # rest"
proof -
  have e: "re_scan r [] (x # s) [] = re_scan r [x] s [x]" using assms by (rule scan_None_Cons)
  from scan_gap[of r "[x]" s "[x]"] obtain g0 where
    "re_scan r [x] s [x] \<noteq> []" "fst (hd (re_scan r [x] s [x])) = x # g0" by auto
  then show ?thesis unfolding e by (cases "re_scan r [x] s [x]") auto
qed

lemma split_first:
  "\<not> is_space x \<Longrightarrow> \<exists>t rest. re_split ws_plus (x # s) = (x # t) # rest"
  using scan_first_char[OF ws_plus_no_match', of x s] by (auto simp: re_split_def)

lemma sub_first:
  "\<not> is_space x \<Longrightarrow> \<exists>t. re_sub zero_tail_re repl (x # s) = x # t"
proof -
  assume "\<not> is_space x"
  then have "match_here zero_tail_re ([], x # s) = None"
    unfolding zero_tail_re_def seqs_def by (simp add: ws_plus_no_match)
  from scan_first_char[OF this] show ?thesis by (auto simp: re_sub_def)
qed

lemma first_match_stripped: "first_match r t = Some v \<Longrightarrow> \<exists>g. v = strip g"
  by (auto simp: first_match_def split: option.splits)

lemma name_candidate_stripped: "\<exists>u. name_candidate t = strip u"
  using first_match_stripped[of name_re t]
  by (auto simp: name_candidate_def Let_def split: option.splits)

lemma name_candidate_nonempty:
  "\<exists>c\<in>set t. \<not> is_space c \<Longrightarrow> name_candidate t \<noteq> []"
  using strip_eq_Nil_iff[of t] by (auto simp: name_candidate_def Let_def split: option.splits)

lemma stripped_cons: "strip u \<noteq> [] \<Longrightarrow> \<exists>x s. strip u = x # s \<and> \<not> is_space x"
  using strip_hd[of u] by (cases "strip u") auto

lemma extract_name_first:
  assumes "\<exists>c\<in>set t. \<not> is_space c"
  shows "\<exists>p. n_first (extract_name t) = Some p \<and> p \<noteq> []"
proof -
  obtain u where u: "name_candidate t = strip u" using name_candidate_stripped by blast
  have ne: "name_candidate t \<noteq> []" using assms by (rule name_candidate_nonempty)
  from stripped_cons[of u] u ne obtain x s where xs: "name_candidate t = x # s" "\<not> is_space x"
    by auto
  have st: "strip (name_candidate t) = name_candidate t" using u strip_strip by simp
  from split_first[OF xs(2), of s] obtain y rest where
    p: "re_split ws_plus (x # s) = (x # y) # rest" by blast
  show ?thesis
    unfolding extract_name_def Let_def st using ne xs(1) p by auto
qed

text \<open>
  C10. For every text with a character that is not whitespace, the employee extractor
  returns a record whose first name is set and not empty: when the first-name label gives
  no line, the whole text is the name candidate, and the first token of a candidate is
  never empty. So \<open>any(employee.values())\<close> holds and the record is not discarded.
\<close>

theorem first_name_from_any_text:
  assumes "\<exists>c\<in>set text. \<not> is_space c"
  shows "(\<exists>p. e_first (extract_employee_from_page text) = Some p \<and> p \<noteq> [])
         \<and> any_values (extract_employee_from_page text)"
proof -
  let ?nl = "first_match first_name_re text"
  have "\<exists>p. e_first (extract_employee_from_page text) = Some p \<and> p \<noteq> []"
  proof (cases "truthy ?nl")
    case False
    then show ?thesis using extract_name_first[OF assms]
      by (simp add: extract_employee_from_page_def Let_def)
  next
    case True
    then obtain l where l: "?nl = Some l" "l \<noteq> []" by (cases ?nl) auto
    from first_match_stripped[OF l(1)] obtain g where "l = strip g" by blast
    with stripped_cons[of g] l(2) obtain x s where xs: "l = x # s" "\<not> is_space x" by auto
    from sub_first[OF xs(2), of "[]" s] obtain y where
      y: "re_sub zero_tail_re [] l = x # y" using xs(1) by auto
    have "strip (x # y) \<noteq> []" using xs(2) strip_eq_Nil_iff[of "x # y"] by auto
    then have "\<exists>c\<in>set (strip (x # y)). \<not> is_space c"
      using strip_hd[of "x # y"] by (metis hd_in_set)
    from extract_name_first[OF this] show ?thesis
      using True l(1) y by (simp add: extract_employee_from_page_def Let_def)
  qed
  then show ?thesis by (auto simp: any_values_def)
qed

text \<open>A text that is no name at all still yields a first name.\<close>

theorem first_name_from_any_text_witness:
  "e_first (extract_employee_from_page '' 7 '') = Some ''7''
   \<and> any_values (extract_employee_from_page '' 7 '')"
proof -
  have h: "\<exists>c\<in>set '' 7 ''. \<not> is_space c" by (simp add: is_space_def)
  have e: "e_first (extract_employee_from_page '' 7 '') = Some ''7''" by code_simp
  from first_name_from_any_text[OF h] e show ?thesis by blast
qed

section \<open>Splitting a name on whitespace\<close>

lemma star_class_first:
  "rmatch (Star (Chr P)) ((b, a), g) \<noteq> []
   \<and> hd (rmatch (Star (Chr P)) ((b, a), g)) = ((rev (takeWhile P a) @ b, dropWhile P a), g)"
proof (induction a arbitrary: b)
  case Nil
  show ?case by simp
next
  case (Cons x xs)
  show ?case
  proof (cases "P x")
    case False
    then show ?thesis by simp
  next
    case True
    have "rmatch (Star (Chr P)) ((b, x # xs), g)
      = rmatch (Star (Chr P)) ((x # b, xs), g) @ [((b, x # xs), g)]"
      using True by (simp del: rmatch.simps(7) add: rmatch.simps(7)[of "Chr P" b "x # xs" g])
    then show ?thesis using Cons[of "x # b"] True by (simp del: rmatch.simps(7))
  qed
qed

lemma ws_plus_match:
  assumes "is_space x"
  shows "match_here ws_plus (b, x # xs)
    = Some ((rev (takeWhile is_space (x # xs)) @ b, dropWhile is_space (x # xs)), None)"
proof -
  have "rmatch ws_plus ((b, x # xs), None) = rmatch (Star (Chr is_space)) ((x # b, xs), None)"
    using assms by (simp add: ws_plus_def Plus_def ws_def del: rmatch.simps(7))
  then show ?thesis
    using star_class_first[of is_space "x # b" xs None] assms
    by (cases "rmatch (Star (Chr is_space)) ((x # b, xs), None)")
       (auto simp: match_here_def simp del: rmatch.simps(7))
qed

lemma tokens_skip: "tokens_from (dropWhile is_space s) [] = tokens_from s []"
  by (induction s) auto

lemma split_tokens:
  "a = [] \<or> \<not> is_space (last a) \<Longrightarrow> gap \<noteq> [] \<or> (a \<noteq> [] \<and> \<not> is_space (hd a)) \<Longrightarrow>
   map fst (re_scan ws_plus b a gap) = tokens_from a gap"
proof (induction "length a" arbitrary: b a gap rule: less_induct)
  case less
  show ?case
  proof (cases a)
    case Nil
    have "match_here ws_plus (b, []) = None"
      by (simp add: match_here_def ws_plus_def Plus_def ws_def)
    then show ?thesis using Nil less.prems by (simp add: scan_None_Nil)
  next
    case (Cons x xs)
    show ?thesis
    proof (cases "is_space x")
      case False
      have l: "length xs < length a" using Cons by simp
      have 1: "xs = [] \<or> \<not> is_space (last xs)" using less.prems(1) Cons by (cases xs) auto
      from less.hyps[OF l 1, of "x # gap" "x # b"] show ?thesis
        using Cons False by (simp add: scan_None_Cons[OF ws_plus_no_match'[OF False]])
    next
      case True
      let ?a' = "dropWhile is_space (x # xs)"
      have g: "gap \<noteq> []" using less.prems(2) Cons True by auto
      have mh: "match_here ws_plus (b, a)
        = Some ((rev (takeWhile is_space (x # xs)) @ b, ?a'), None)"
        using ws_plus_match[OF True] Cons by simp
      have l: "length ?a' < length a" using True Cons
        by (simp add: le_imp_less_Suc length_dropWhile_le)
      have la: "\<not> is_space (last a)" using less.prems(1) Cons by auto
      have ne: "?a' \<noteq> []"
      proof
        assume "?a' = []"
        then have "\<forall>c\<in>set (x # xs). is_space c" by (simp only: dropWhile_eq_Nil_conv)
        moreover have "last a \<in> set (x # xs)" using Cons by (metis last_in_set list.distinct(1))
        ultimately show False using la by blast
      qed
      have h: "\<not> is_space (hd ?a')" using ne by (rule hd_dropWhile)
      have "a = takeWhile is_space a @ ?a'" using Cons by simp
      then have "last a = last ?a'" using ne by (metis last_appendR)
      then have 1: "?a' = [] \<or> \<not> is_space (last ?a')" using la by simp
      have 2: "[] \<noteq> [] \<or> (?a' \<noteq> [] \<and> \<not> is_space (hd ?a'))" using ne h by simp
      have "map fst (re_scan ws_plus (rev (takeWhile is_space (x # xs)) @ b) ?a' [])
        = tokens_from ?a' []"
        using less.hyps[OF l 1 2] .
      also have "\<dots> = tokens_from xs []"
        using tokens_skip[of "x # xs"] True by simp
      finally have r: "map fst (re_scan ws_plus (rev (takeWhile is_space (x # xs)) @ b) ?a' [])
        = tokens_from xs []" .
      have "re_scan ws_plus b a gap =
        (rev gap, Some (mk_match b a ((rev (takeWhile is_space (x # xs)) @ b, ?a'), None)))
        # re_scan ws_plus (rev (takeWhile is_space (x # xs)) @ b) ?a' []"
        using scan_Some_progress[OF mh l] .
      then show ?thesis using r g True Cons by simp
    qed
  qed
qed

lemma split_is_tokens:
  "s \<noteq> [] \<Longrightarrow> \<not> is_space (hd s) \<Longrightarrow> \<not> is_space (last s) \<Longrightarrow> re_split ws_plus s = ws_tokens s"
  unfolding re_split_def ws_tokens_def by (rule split_tokens) auto

section \<open>Names from tokens\<close>

lemma candidate_parts:
  assumes "name_candidate t \<noteq> []"
  shows "re_split ws_plus (strip (name_candidate t)) = ws_tokens (name_candidate t)"
proof -
  obtain u where u: "name_candidate t = strip u" using name_candidate_stripped by blast
  have st: "strip (name_candidate t) = name_candidate t" using u strip_strip by simp
  have "\<not> is_space (hd (name_candidate t))" "\<not> is_space (last (name_candidate t))"
    using assms u strip_hd[of u] strip_last[of u] by simp_all
  then show ?thesis unfolding st using assms by (intro split_is_tokens)
qed

lemma tokens_nonempty: "s \<noteq> [] \<Longrightarrow> \<not> is_space (hd s) \<Longrightarrow> \<not> is_space (last s) \<Longrightarrow> ws_tokens s \<noteq> []"
proof -
  assume a: "s \<noteq> []" "\<not> is_space (hd s)" "\<not> is_space (last s)"
  from scan_gap[of ws_plus "[]" s "[]"] have "re_split ws_plus s \<noteq> []" by (simp add: re_split_def)
  then show ?thesis using split_is_tokens[OF a] by simp
qed

text \<open>
  C8. Let the name candidate be the text after the name label, stripped, or else the
  whole text, stripped. When the candidate is not empty it has at least one token, and
  with its tokens numbered from 0: one token sets only \<open>first\<close>; two tokens set \<open>first\<close>
  and \<open>last\<close> and leave \<open>middle\<close> \<open>None\<close>; three or more tokens set \<open>first\<close> to the first
  token, \<open>last\<close> to the last token and \<open>middle\<close> to the tokens in between joined by single
  spaces. An empty candidate sets nothing.
\<close>

theorem name_from_tokens:
  "(name_candidate text = [] \<longrightarrow>
      extract_name text = \<lparr>n_first = None, n_middle = None, n_last = None\<rparr>)
   \<and> (name_candidate text \<noteq> [] \<longrightarrow>
      ws_tokens (name_candidate text) \<noteq> []
      \<and> (length (ws_tokens (name_candidate text)) = 1 \<longrightarrow>
           extract_name text
             = \<lparr>n_first = Some (ws_tokens (name_candidate text) ! 0),
                n_middle = None, n_last = None\<rparr>)
      \<and> (length (ws_tokens (name_candidate text)) = 2 \<longrightarrow>
           extract_name text
             = \<lparr>n_first = Some (ws_tokens (name_candidate text) ! 0),
                n_middle = None,
                n_last = Some (ws_tokens (name_candidate text) ! 1)\<rparr>)
      \<and> (3 \<le> length (ws_tokens (name_candidate text)) \<longrightarrow>
           extract_name text
             = \<lparr>n_first = Some (ws_tokens (name_candidate text) ! 0),
                n_middle = Some (join '' '' (butlast (tl (ws_tokens (name_candidate text))))),
                n_last = Some (last (ws_tokens (name_candidate text)))\<rparr>))"
proof (cases "name_candidate text = []")
  case True
  then show ?thesis by (simp add: extract_name_def)
next
  case False
  obtain u where u: "name_candidate text = strip u" using name_candidate_stripped by blast
  have "\<not> is_space (hd (name_candidate text))" "\<not> is_space (last (name_candidate text))"
    using False u strip_hd[of u] strip_last[of u] by simp_all
  then have ne: "ws_tokens (name_candidate text) \<noteq> []" using False by (intro tokens_nonempty)
  then have l: "length (ws_tokens (name_candidate text)) \<noteq> 0" by simp
  show ?thesis
    using False ne l
    by (simp add: extract_name_def Let_def candidate_parts[OF False])
qed

text \<open>A label, a candidate of four tokens with a double space in it.\<close>

theorem name_from_tokens_witness:
  "extract_name ''Employee's name  Mary Ann  Van Dyke ''
     = \<lparr>n_first = Some ''Mary'', n_middle = Some ''Ann Van'', n_last = Some ''Dyke''\<rparr>"
proof -
  have c: "name_candidate ''Employee's name  Mary Ann  Van Dyke '' = ''Mary Ann  Van Dyke''"
    by code_simp
  have t: "ws_tokens ''Mary Ann  Van Dyke'' = [''Mary'', ''Ann'', ''Van'', ''Dyke'']"
    by code_simp
  from name_from_tokens[of "''Employee's name  Mary Ann  Van Dyke ''"]
  show ?thesis unfolding c t by simp
qed

end
